theory Spec2Isabelle
  imports Complex_Main "HOL-Library.Product_Lexorder" "HOL-Library.AList" "HOL-Library.Multiset"
begin

section \<open>Errors\<close>

text \<open>
  The Python exceptions the modelled functions can raise. \<open>OtherError\<close> stands for
  any exception of a library call (pandas, openpyxl, the file system) whose class
  the source never inspects: every handler in the source is \<^verbatim>\<open>except Exception\<close>.
\<close>

datatype error = KeyError | ZeroDivisionError | ValueError | OtherError

section \<open>Partition planner: \<^verbatim>\<open>calculate_output_distribution\<close>\<close>

text \<open>
  \<^verbatim>\<open>input_analysis\<close> is the dictionary returned by \<^verbatim>\<open>analyze_input_file\<close>;
  \<open>sheets_info\<close> maps a sheet name to \<open>(total_rows, data_rows)\<close>.
\<close>

record input_analysis =
  num_sheets :: int
  sheet_names :: "string list"
  sheets_info :: "string \<rightharpoonup> (int \<times> int)"
  total_data_rows :: int

record segment =
  input_sheet :: string
  start_row :: int
  num_rows :: int
  output_file :: int
  output_sheet :: int

text \<open>
  The mutable variables of the planner's loops. \<open>files\<close> is
  \<^verbatim>\<open>output_distribution["files"]\<close>: file number to (sheet number to row count).
\<close>

record plan_state =
  files :: "int \<rightharpoonup> (int \<rightharpoonup> int)"
  current_file :: int
  current_sheet :: int
  data_segments :: "segment list"
  current_positions :: "string \<rightharpoonup> int"
  rows_processed :: int
  remaining_data_rows :: int

record output_distribution =
  od_files :: "int \<rightharpoonup> (int \<rightharpoonup> int)"
  total_output_files :: int
  total_output_sheets :: int
  od_data_segments :: "segment list"

text \<open>
  \<^verbatim>\<open>math.ceil(a / b)\<close>. Python divides as floats; the model takes the exact
  ceiling of the quotient, which the float computation yields for all row counts
  a spreadsheet can hold. Division by zero raises.
\<close>

definition ceil_div :: "int \<Rightarrow> int \<Rightarrow> error + int" where
  "ceil_div a b = (if b = 0 then Inl ZeroDivisionError else Inr (- ((- a) div b)))"

text \<open>
  \<^verbatim>\<open>if current_sheet > sheets_per_file: current_file += 1; current_sheet = 1\<close>,
  after \<^verbatim>\<open>current_sheet += 1\<close>.
\<close>

definition advance_sheet :: "int \<Rightarrow> plan_state \<Rightarrow> plan_state" where
  "advance_sheet sheets_per_file st =
     (let st1 = st\<lparr>current_sheet := current_sheet st + 1\<rparr>
      in if current_sheet st1 > sheets_per_file
         then st1\<lparr>current_file := current_file st1 + 1, current_sheet := 1\<rparr>
         else st1)"

text \<open>One iteration of the \<^verbatim>\<open>while rows_processed < sheet_data_rows\<close> body.\<close>

definition fill_step ::
  "string \<Rightarrow> int \<Rightarrow> int \<Rightarrow> int \<Rightarrow> plan_state \<Rightarrow> error + plan_state" where
  "fill_step sheet_name sheet_data_rows sheets_per_file data_rows_per_sheet st =
     (let rows_left_in_sheet = sheet_data_rows - rows_processed st;
          sheets0 = (case files st (current_file st) of None \<Rightarrow> Map.empty | Some m \<Rightarrow> m);
          sheets1 = (case sheets0 (current_sheet st) of
                       None \<Rightarrow> sheets0(current_sheet st \<mapsto> 0) | Some _ \<Rightarrow> sheets0);
          current_output_rows = (case sheets1 (current_sheet st) of None \<Rightarrow> 0 | Some n \<Rightarrow> n);
          st1 = st\<lparr>files := (files st)(current_file st \<mapsto> sheets1)\<rparr>;
          rows_available_in_output = data_rows_per_sheet - current_output_rows;
          rows_to_copy = min rows_left_in_sheet rows_available_in_output
      in if rows_to_copy > 0 then
           (case current_positions st1 sheet_name of
              None \<Rightarrow> Inl KeyError
            | Some start \<Rightarrow>
               (let seg = \<lparr>input_sheet = sheet_name, start_row = start,
                           num_rows = rows_to_copy, output_file = current_file st1,
                           output_sheet = current_sheet st1\<rparr>;
                    filled = current_output_rows + rows_to_copy;
                    st2 = st1\<lparr>data_segments := data_segments st1 @ [seg],
                              current_positions :=
                                (current_positions st1)(sheet_name \<mapsto> start + rows_to_copy),
                              files := (files st1)(current_file st1 \<mapsto>
                                         sheets1(current_sheet st1 \<mapsto> filled)),
                              rows_processed := rows_processed st1 + rows_to_copy,
                              remaining_data_rows := remaining_data_rows st1 - rows_to_copy\<rparr>
                in Inr (if filled \<ge> data_rows_per_sheet
                        then advance_sheet sheets_per_file st2 else st2)))
         else Inr (advance_sheet sheets_per_file st1))"

text \<open>
  The \<^verbatim>\<open>while\<close> loop over one input sheet. It need not terminate (it does not for
  \<open>data_rows_per_sheet \<le> 0\<close>), so not returning is the value \<open>None\<close>.
\<close>

partial_function (option) fill_sheet ::
  "string \<Rightarrow> int \<Rightarrow> int \<Rightarrow> int \<Rightarrow> plan_state \<Rightarrow> (error + plan_state) option" where
  "fill_sheet sheet_name sheet_data_rows sheets_per_file data_rows_per_sheet st =
     (if rows_processed st < sheet_data_rows then
        (case fill_step sheet_name sheet_data_rows sheets_per_file data_rows_per_sheet st of
           Inl e \<Rightarrow> Some (Inl e)
         | Inr st' \<Rightarrow> fill_sheet sheet_name sheet_data_rows sheets_per_file data_rows_per_sheet st')
      else Some (Inr st))"

declare fill_sheet.simps [code]

text \<open>The \<^verbatim>\<open>for sheet_name in input_analysis["sheet_names"]\<close> loop.\<close>

fun for_sheets ::
  "input_analysis \<Rightarrow> int \<Rightarrow> int \<Rightarrow> string list \<Rightarrow> plan_state \<Rightarrow> (error + plan_state) option" where
  "for_sheets ia sheets_per_file data_rows_per_sheet [] st = Some (Inr st)"
| "for_sheets ia sheets_per_file data_rows_per_sheet (sheet_name # rest) st =
     (case sheets_info ia sheet_name of
        None \<Rightarrow> Some (Inl KeyError)
      | Some (total_rows, sheet_data_rows) \<Rightarrow>
         (case fill_sheet sheet_name sheet_data_rows sheets_per_file data_rows_per_sheet
                 (st\<lparr>rows_processed := 0\<rparr>) of
            None \<Rightarrow> None
          | Some (Inl e) \<Rightarrow> Some (Inl e)
          | Some (Inr st') \<Rightarrow> for_sheets ia sheets_per_file data_rows_per_sheet rest st'))"

definition initial_state :: "input_analysis \<Rightarrow> plan_state" where
  "initial_state ia =
     \<lparr>files = Map.empty, current_file = 1, current_sheet = 1, data_segments = [],
      current_positions = map_of (map (\<lambda>n. (n, 0)) (sheet_names ia)),
      rows_processed = 0, remaining_data_rows = total_data_rows ia\<rparr>"

definition calculate_output_distribution ::
  "input_analysis \<Rightarrow> int \<Rightarrow> int \<Rightarrow> (error + output_distribution) option" where
  "calculate_output_distribution ia sheets_per_file data_rows_per_sheet =
     (case ceil_div (total_data_rows ia) data_rows_per_sheet of
        Inl e \<Rightarrow> Some (Inl e)
      | Inr sheets \<Rightarrow>
         (case ceil_div sheets sheets_per_file of
            Inl e \<Rightarrow> Some (Inl e)
          | Inr nfiles \<Rightarrow>
             (case for_sheets ia sheets_per_file data_rows_per_sheet (sheet_names ia)
                     (initial_state ia) of
                None \<Rightarrow> None
              | Some (Inl e) \<Rightarrow> Some (Inl e)
              | Some (Inr st) \<Rightarrow>
                  Some (Inr \<lparr>od_files = files st, total_output_files = nfiles,
                             total_output_sheets = sheets,
                             od_data_segments = data_segments st\<rparr>))))"

text \<open>The worked example of the specification: sheet A with 7 data rows, sheet B with 5.\<close>

definition example_analysis :: input_analysis where
  "example_analysis =
     \<lparr>num_sheets = 2, sheet_names = [''A'', ''B''],
      sheets_info = [''A'' \<mapsto> (8, 7), ''B'' \<mapsto> (6, 5)],
      total_data_rows = 12\<rparr>"

section \<open>Data frames and workbooks\<close>

text \<open>
  A pandas \<^verbatim>\<open>DataFrame\<close>: the header and the data rows, each row a list of cells.
  A workbook is the ordered list of its sheets; a file that cannot be opened is \<open>None\<close>.
\<close>

record 'a dataframe =
  columns :: "string list"
  rows :: "'a list list"

type_synonym ('k, 'a) workbook = "('k \<times> 'a dataframe) list"

definition empty_frame :: "'a dataframe" where
  "empty_frame = \<lparr>columns = [], rows = []\<rparr>"

text \<open>\<^verbatim>\<open>df.empty\<close>: an axis of length 0.\<close>

definition df_empty :: "'a dataframe \<Rightarrow> bool" where
  "df_empty df = (columns df = [] \<or> rows df = [])"

text \<open>
  \<^verbatim>\<open>pd.read_excel(file, sheet_name=.., skiprows=list(range(1, skip + 1)), nrows=..)\<close>:
  row 0 stays the header, the first \<open>skip\<close> data rows are dropped and at most
  \<open>nrows\<close> data rows are returned (all of them for \<^verbatim>\<open>nrows=None\<close>). It raises when
  the file cannot be opened, when it has no such sheet and when \<open>nrows\<close> is negative.
\<close>

definition read_excel ::
  "('k, 'a) workbook option \<Rightarrow> 'k \<Rightarrow> nat \<Rightarrow> int option \<Rightarrow> error + 'a dataframe" where
  "read_excel file sheet_name skip nrows =
     (case file of
        None \<Rightarrow> Inl OtherError
      | Some wb \<Rightarrow>
         (case map_of wb sheet_name of
            None \<Rightarrow> Inl ValueError
          | Some df \<Rightarrow>
             (case nrows of
                None \<Rightarrow> Inr (df\<lparr>rows := drop skip (rows df)\<rparr>)
              | Some n \<Rightarrow>
                 if n < 0 then Inl ValueError
                 else Inr (df\<lparr>rows := take (nat n) (drop skip (rows df))\<rparr>))))"

section \<open>Chunked reader: \<^verbatim>\<open>read_sheet_data\<close>\<close>

text \<open>
  \<^verbatim>\<open>range(1, start_row + 1)\<close> has \<open>nat start_row\<close> elements. Every exception is
  caught and an empty frame returned.
\<close>

definition read_sheet_data ::
  "(string, 'a) workbook option \<Rightarrow> string \<Rightarrow> int \<Rightarrow> int option \<Rightarrow> 'a dataframe" where
  "read_sheet_data input_file sheet_name start num =
     (case (if start = 0 then read_excel input_file sheet_name 0 num
            else (case read_excel input_file sheet_name (nat start) num of
                    Inl e \<Rightarrow> Inl e
                  | Inr df \<Rightarrow>
                     (case read_excel input_file sheet_name 0 (Some 1) of
                        Inl e \<Rightarrow> Inl e
                      | Inr header_df \<Rightarrow> Inr (df\<lparr>columns := columns header_df\<rparr>)))) of
        Inl e \<Rightarrow> empty_frame
      | Inr df \<Rightarrow> df)"

text \<open>The records a segment reads from the input workbook.\<close>

definition read_segment :: "(string, 'a) workbook \<Rightarrow> segment \<Rightarrow> 'a list list" where
  "read_segment wb seg =
     rows (read_sheet_data (Some wb) (input_sheet seg) (start_row seg) (Some (num_rows seg)))"

definition sheet_rows :: "(string, 'a) workbook \<Rightarrow> string \<Rightarrow> 'a list list" where
  "sheet_rows wb n = (case map_of wb n of None \<Rightarrow> [] | Some df \<Rightarrow> rows df)"

section \<open>Input analyzer: \<^verbatim>\<open>count_rows_in_sheet\<close>, \<^verbatim>\<open>analyze_input_file\<close>\<close>

text \<open>
  What the analyzer's library calls answer. The file may change between the calls, so
  each call has its own answer:
  \<^item> \<open>excel_sheet_names\<close>: \<^verbatim>\<open>pd.ExcelFile(input_file).sheet_names\<close>;
  \<^item> \<open>openpyxl_max_row\<close>: \<^verbatim>\<open>load_workbook(input_file, read_only=True)[sheet_name].max_row\<close>;
  \<^item> \<open>pandas_chunk_rows\<close>: the fallback's \<^verbatim>\<open>sum(len(chunk) for chunk in df_iter)\<close>.
\<close>

record source_env =
  excel_sheet_names :: "error + string list"
  openpyxl_max_row :: "string \<Rightarrow> error + int"
  pandas_chunk_rows :: "string \<Rightarrow> error + int"

definition count_rows_in_sheet :: "source_env \<Rightarrow> string \<Rightarrow> int \<times> int" where
  "count_rows_in_sheet env sheet_name =
     (case openpyxl_max_row env sheet_name of
        Inr total_rows \<Rightarrow> (total_rows, total_rows - 1)
      | Inl e \<Rightarrow>
         (case pandas_chunk_rows env sheet_name of
            Inr n \<Rightarrow> (let data_rows = n - 1; total_rows = data_rows + 1
                      in (total_rows, data_rows))
          | Inl inner_e \<Rightarrow> (0, 0)))"

fun analyze_sheets ::
  "source_env \<Rightarrow> string list \<Rightarrow> (string \<rightharpoonup> (int \<times> int)) \<times> int
     \<Rightarrow> (string \<rightharpoonup> (int \<times> int)) \<times> int" where
  "analyze_sheets env [] acc = acc"
| "analyze_sheets env (sheet_name # rest) (info, total_data) =
     (case count_rows_in_sheet env sheet_name of
        (total_rows, data_rows) \<Rightarrow>
          analyze_sheets env rest
            (info(sheet_name \<mapsto> (total_rows, data_rows)), total_data + data_rows))"

definition analyze_input_file :: "source_env \<Rightarrow> error + input_analysis" where
  "analyze_input_file env =
     (case excel_sheet_names env of
        Inl e \<Rightarrow> Inl e
      | Inr names \<Rightarrow>
         (case analyze_sheets env names (Map.empty, 0) of
            (info, total_data) \<Rightarrow>
              Inr \<lparr>num_sheets = int (length names), sheet_names = names,
                   sheets_info = info, total_data_rows = total_data\<rparr>))"

section \<open>Output consolidator: \<^verbatim>\<open>process_data_segment\<close>\<close>

text \<open>
  The output directory: output file number \<open>i\<close> (the path \<^verbatim>\<open>output_<i>.xlsx\<close>) to its
  workbook, whose sheets are keyed by the sheet number \<open>j\<close> of the name \<^verbatim>\<open>Sheet_<j>\<close>.
\<close>

type_synonym 'a store = "int \<rightharpoonup> (int, 'a) workbook"

text \<open>
  Which library calls of one \<^verbatim>\<open>process_data_segment\<close> call raise:
  \<^item> \<open>probe_fails\<close>: \<^verbatim>\<open>pd.ExcelFile(output_path).sheet_names\<close> on the existing file;
  \<^item> \<open>write_fails\<close>: the \<^verbatim>\<open>with pd.ExcelWriter(...)\<close> block under the lock;
  \<^item> \<open>rewrite_fails\<close>: the recovery block that rewrites the whole file.
  A block that raises leaves the stored file as it was.
\<close>

record faults =
  probe_fails :: bool
  write_fails :: bool
  rewrite_fails :: bool

definition no_faults :: faults where
  "no_faults = \<lparr>probe_fails = False, write_fails = False, rewrite_fails = False\<rparr>"

text \<open>
  \<^verbatim>\<open>pd.concat([a, b], ignore_index=True)\<close> for frames with the same columns: the rows of
  \<open>b\<close> after the rows of \<open>a\<close>, under the header of \<open>a\<close>.
\<close>

definition concat_frames :: "'a dataframe \<Rightarrow> 'a dataframe \<Rightarrow> 'a dataframe" where
  "concat_frames a b = a\<lparr>rows := rows a @ rows b\<rparr>"

text \<open>\<^verbatim>\<open>df.iloc[1:] if include_header else df\<close>.\<close>

definition batch_rows :: "bool \<Rightarrow> 'a dataframe \<Rightarrow> 'a dataframe" where
  "batch_rows include_header df = (if include_header then df\<lparr>rows := tl (rows df)\<rparr> else df)"

text \<open>
  The \<^verbatim>\<open>try\<close> block under the file lock. Mode \<^verbatim>\<open>'w'\<close> (no file, or a file whose sheet
  list cannot be read) starts a new workbook; mode \<^verbatim>\<open>'a'\<close> adds the sheet or, when the
  sheet exists, writes the existing rows followed by the batch over it.
  The writer is opened with \<^verbatim>\<open>if_sheet_exists='overlay'\<close> in both modes; a pandas that
  refuses this argument outside mode \<^verbatim>\<open>'a'\<close> makes every write in mode \<^verbatim>\<open>'w'\<close> one that
  raises (\<open>write_fails\<close>).
\<close>

definition locked_write ::
  "faults \<Rightarrow> 'a dataframe \<Rightarrow> bool \<Rightarrow> int \<Rightarrow> int \<Rightarrow> 'a store \<Rightarrow> error + 'a store" where
  "locked_write fl df include_header f s store =
     (case store f of
        None \<Rightarrow>
          if write_fails fl then Inl OtherError else Inr (store(f \<mapsto> [(s, df)]))
      | Some wb \<Rightarrow>
          if probe_fails fl then
            (if write_fails fl then Inl OtherError else Inr (store(f \<mapsto> [(s, df)])))
          else if write_fails fl then Inl OtherError
          else
            (case map_of wb s of
               None \<Rightarrow> Inr (store(f \<mapsto> wb @ [(s, df)]))
             | Some existing_data \<Rightarrow>
                 Inr (store(f \<mapsto>
                   AList.update s (concat_frames existing_data (batch_rows include_header df)) wb))))"

text \<open>
  The \<^verbatim>\<open>except\<close> block: read every sheet of the file, update or add the target sheet,
  write the whole file again.
\<close>

definition recover_file ::
  "faults \<Rightarrow> 'a dataframe \<Rightarrow> bool \<Rightarrow> int \<Rightarrow> int \<Rightarrow> 'a store \<Rightarrow> error + 'a store" where
  "recover_file fl df include_header f s store =
     (case store f of
        None \<Rightarrow> Inl OtherError
      | Some all_sheets \<Rightarrow>
          if rewrite_fails fl then Inl OtherError
          else
            (case map_of all_sheets s of
               Some existing_data \<Rightarrow>
                 Inr (store(f \<mapsto>
                   AList.update s (concat_frames existing_data (batch_rows include_header df))
                     all_sheets))
             | None \<Rightarrow> Inr (store(f \<mapsto> AList.update s df all_sheets))))"

text \<open>
  The function's result is \<open>Inr\<close> of the new output directory when it returns and
  \<open>Inl\<close> when an exception leaves it.
\<close>

definition process_data_segment ::
  "faults \<Rightarrow> (string, 'a) workbook option \<Rightarrow> segment \<Rightarrow> 'a store \<Rightarrow> error + 'a store" where
  "process_data_segment fl input_file seg store =
     (let include_header = (start_row seg = 0);
          df = read_sheet_data input_file (input_sheet seg) (start_row seg) (Some (num_rows seg))
      in if df_empty df then Inr store
         else
           (case locked_write fl df include_header (output_file seg) (output_sheet seg) store of
              Inr store' \<Rightarrow> Inr store'
            | Inl e \<Rightarrow>
               (case recover_file fl df include_header (output_file seg) (output_sheet seg)
                       store of
                  Inr store' \<Rightarrow> Inr store'
                | Inl inner_e \<Rightarrow> Inr store)))"

section \<open>Execution coordinator: \<^verbatim>\<open>split_excel_file_distributed\<close>\<close>

text \<open>
  The submitted segments, each with the faults its call meets, run one after the other:
  the per-file lock makes every read-modify-write of a file atomic. An exception of
  \<^verbatim>\<open>future.result()\<close> is logged and the next future is awaited.
\<close>

fun run_segments ::
  "(string, 'a) workbook option \<Rightarrow> (faults \<times> segment) list \<Rightarrow> 'a store \<Rightarrow> 'a store" where
  "run_segments input_file [] store = store"
| "run_segments input_file ((fl, seg) # rest) store =
     (case process_data_segment fl input_file seg store of
        Inl e \<Rightarrow> run_segments input_file rest store
      | Inr store' \<Rightarrow> run_segments input_file rest store')"

text \<open>
  \<open>fl i\<close> are the faults of the \<open>i\<close>-th submitted segment.
  \<^verbatim>\<open>ThreadPoolExecutor(max_workers=0)\<close> raises when the plan has no segment.
\<close>

definition split_excel_file_distributed ::
  "source_env \<Rightarrow> (string, 'a) workbook option \<Rightarrow> (nat \<Rightarrow> faults) \<Rightarrow> int \<Rightarrow> int \<Rightarrow> 'a store
     \<Rightarrow> (error + int \<times> 'a store) option" where
  "split_excel_file_distributed env input_file fl sheets_per_file data_rows_per_sheet store =
     (case analyze_input_file env of
        Inl e \<Rightarrow> Some (Inl e)
      | Inr analysis \<Rightarrow>
         (case calculate_output_distribution analysis sheets_per_file data_rows_per_sheet of
            None \<Rightarrow> None
          | Some (Inl e) \<Rightarrow> Some (Inl e)
          | Some (Inr distribution) \<Rightarrow>
             (let segs = od_data_segments distribution
              in if segs = [] then Some (Inl ValueError)
                 else Some (Inr (total_output_files distribution,
                        run_segments input_file (zip (map fl [0..<length segs]) segs) store)))))"

section \<open>Staging store: \<^verbatim>\<open>read_sheet_to_db\<close>, \<^verbatim>\<open>get_data_for_sheet\<close>\<close>

text \<open>
  A row of the table \<^verbatim>\<open>excel_data\<close>; the table is the list of its rows in insertion
  order (the order of the autoincremented \<^verbatim>\<open>id\<close>).
\<close>

record 'a db_row =
  source_sheet :: int
  row_num :: int
  serial :: 'a
  qri :: 'a

text \<open>
  \<^verbatim>\<open>df.iloc[:, 0:2]\<close> renamed to \<^verbatim>\<open>serial\<close>, \<^verbatim>\<open>qri\<close>, with \<^verbatim>\<open>source_sheet\<close> and
  \<^verbatim>\<open>row_num = np.arange(1, len + 1)\<close>. A frame is rectangular: every row has one cell
  for each column, so a row of a frame with two columns or more has cells 0 and 1.
\<close>

definition to_db_rows :: "int \<Rightarrow> 'a dataframe \<Rightarrow> 'a db_row list" where
  "to_db_rows sheet_idx df =
     map (\<lambda>(i, r). \<lparr>source_sheet = sheet_idx, row_num = int i + 1,
                     serial = r ! 0, qri = r ! 1\<rparr>)
         (enumerate 0 (rows df))"

text \<open>
  The result is the returned count and the table after the call. \<^verbatim>\<open>read_excel_to_db\<close>
  runs one such call for each sheet in a process pool, so the calls append to the table
  in any order.
\<close>

definition read_sheet_to_db ::
  "(string, 'a) workbook option \<Rightarrow> string \<Rightarrow> int \<Rightarrow> 'a db_row list \<Rightarrow> int \<times> 'a db_row list" where
  "read_sheet_to_db input_file sheet_name sheet_idx db =
     (case read_excel input_file sheet_name 0 None of
        Inl e \<Rightarrow> (0, db)
      | Inr df \<Rightarrow>
         (let total_rows = int (length (rows df))
          in if length (columns df) \<ge> 2
             then (total_rows - 1, db @ to_db_rows sheet_idx df)
             else (total_rows - 1, db)))"

definition order_key :: "'a db_row \<Rightarrow> int \<times> int" where
  "order_key r = (source_sheet r, row_num r)"

text \<open>SQL \<^verbatim>\<open>LIMIT n\<close>: a negative \<open>n\<close> is no limit.\<close>

definition sql_limit :: "int \<Rightarrow> 'b list \<Rightarrow> 'b list" where
  "sql_limit n xs = (if n < 0 then xs else take (nat n) xs)"

text \<open>
  \<^verbatim>\<open>ORDER BY source_sheet, row_num LIMIT row_count OFFSET start_row - 1\<close>
  (a negative offset counts as 0).
\<close>

definition select_ordered :: "'a db_row list \<Rightarrow> int \<Rightarrow> int \<Rightarrow> 'a db_row list" where
  "select_ordered db start row_count =
     sql_limit row_count (drop (nat (start - 1)) (sort_key order_key db))"

definition get_data_for_sheet :: "'a db_row list \<Rightarrow> int \<Rightarrow> int \<Rightarrow> 'a dataframe" where
  "get_data_for_sheet db start row_count =
     \<lparr>columns = [''serial'', ''qri''],
      rows = map (\<lambda>r. [serial r, qri r]) (select_ordered db start row_count)\<rparr>"

definition count_data_rows :: "'a db_row list \<Rightarrow> int" where
  "count_data_rows db = int (length db)"

section \<open>Staged emission: \<^verbatim>\<open>write_excel_file\<close>, \<^verbatim>\<open>create_output_files\<close>\<close>

text \<open>
  A new file holds the one sheet. In an existing file a sheet of the same number is
  removed and the new sheet added at the end; every handler of the source writes a new
  file with the one sheet.
\<close>

definition write_excel_file :: "int \<Rightarrow> int \<Rightarrow> 'a dataframe \<Rightarrow> bool \<Rightarrow> 'a store \<Rightarrow> 'a store" where
  "write_excel_file output_path sheet_idx data_df is_new_file store =
     (case store output_path of
        None \<Rightarrow> store(output_path \<mapsto> [(sheet_idx, data_df)])
      | Some book \<Rightarrow>
          if is_new_file then store(output_path \<mapsto> [(sheet_idx, data_df)])
          else store(output_path \<mapsto> AList.delete sheet_idx book @ [(sheet_idx, data_df)]))"

definition process_sheet ::
  "'a db_row list \<Rightarrow> int \<Rightarrow> int \<Rightarrow> int \<Rightarrow> int \<Rightarrow> int \<Rightarrow> 'a store \<Rightarrow> bool \<times> 'a store" where
  "process_sheet db sheets_per_file rows_per_sheet total_rows file_idx sheet_idx_in_file store =
     (let global_sheet_idx = (file_idx - 1) * sheets_per_file + sheet_idx_in_file;
          start = (global_sheet_idx - 1) * rows_per_sheet + 1;
          sheet_row_count = min rows_per_sheet (total_rows - (start - 1))
      in if sheet_row_count \<le> 0 then (False, store)
         else
           (let data_df = get_data_for_sheet db start sheet_row_count
            in if df_empty data_df then (False, store)
               else
                 (let is_new_file = (sheet_idx_in_file = 1 \<and> store file_idx = None)
                  in (True, write_excel_file file_idx sheet_idx_in_file data_df is_new_file
                              store))))"

text \<open>The pairs \<open>(file_idx, sheet_idx_in_file)\<close> the two nested loops call \<open>process_sheet\<close> on.\<close>

definition sheet_tasks :: "int \<Rightarrow> int \<Rightarrow> int \<Rightarrow> (int \<times> int) list" where
  "sheet_tasks sheets_per_file total_sheets total_files =
     filter (\<lambda>(file_idx, sheet_idx_in_file).
               (file_idx - 1) * sheets_per_file + sheet_idx_in_file \<le> total_sheets)
       (concat (map (\<lambda>file_idx. map (\<lambda>sheet_idx_in_file. (file_idx, sheet_idx_in_file))
                                   [1..sheets_per_file])
                    [1..total_files]))"

text \<open>The two nested loops: \<open>process_sheet\<close> on each task in turn.\<close>

fun emit_sheets ::
  "'a db_row list \<Rightarrow> int \<Rightarrow> int \<Rightarrow> int \<Rightarrow> (int \<times> int) list \<Rightarrow> 'a store \<Rightarrow> 'a store" where
  "emit_sheets db sheets_per_file rows_per_sheet total_rows [] store = store"
| "emit_sheets db sheets_per_file rows_per_sheet total_rows
     ((file_idx, sheet_idx_in_file) # rest) store =
     emit_sheets db sheets_per_file rows_per_sheet total_rows rest
       (snd (process_sheet db sheets_per_file rows_per_sheet total_rows
               file_idx sheet_idx_in_file store))"

definition create_output_files ::
  "'a db_row list \<Rightarrow> int \<Rightarrow> int \<Rightarrow> 'a store \<Rightarrow> error + int \<times> 'a store" where
  "create_output_files db sheets_per_file rows_per_sheet store =
     (let total_rows = count_data_rows db
      in case ceil_div total_rows rows_per_sheet of
           Inl e \<Rightarrow> Inl e
         | Inr total_sheets \<Rightarrow>
            (case ceil_div total_sheets sheets_per_file of
               Inl e \<Rightarrow> Inl e
             | Inr total_files \<Rightarrow>
                 Inr (total_files,
                      emit_sheets db sheets_per_file rows_per_sheet total_rows
                        (sheet_tasks sheets_per_file total_sheets total_files) store)))"

section \<open>Specification predicates and examples\<close>

text \<open>
  The destination of a segment: (output file, output sheet), ordered lexicographically.
\<close>

definition seg_target :: "segment \<Rightarrow> int \<times> int" where
  "seg_target g = (output_file g, output_sheet g)"

text \<open>
  The sum of the lengths of the segments assigned to output sheet \<open>s\<close> of file \<open>f\<close>.
\<close>

definition target_rows :: "segment list \<Rightarrow> int \<Rightarrow> int \<Rightarrow> int" where
  "target_rows segs f s =
     sum_list (map num_rows (filter (\<lambda>g. output_file g = f \<and> output_sheet g = s) segs))"

text \<open>
  \<^verbatim>\<open>files[f]["sheets"][s]\<close>, when both keys are present.
\<close>

definition lookup_rows :: "(int \<rightharpoonup> (int \<rightharpoonup> int)) \<Rightarrow> int \<Rightarrow> int \<Rightarrow> int option" where
  "lookup_rows fs f s = (case fs f of None \<Rightarrow> None | Some m \<Rightarrow> m s)"

text \<open>
  The planner's loop invariant. After \<open>a\<close> full files, \<open>b\<close> full sheets of file
  \<open>a + 1\<close> and \<open>r\<close> rows in its sheet \<open>b + 1\<close>: the dictionary holds exactly these
  counts, each count is the sum of the segments assigned to the sheet, and the segments'
  destinations are sorted.
\<close>

definition plan_shape :: "int \<Rightarrow> int \<Rightarrow> int \<Rightarrow> int \<Rightarrow> int \<Rightarrow> plan_state \<Rightarrow> bool" where
  "plan_shape G R a b r st \<longleftrightarrow>
     0 \<le> a \<and> 0 \<le> b \<and> b < G \<and> 0 \<le> r \<and> r < R \<and>
     current_file st = a + 1 \<and> current_sheet st = b + 1 \<and>
     (\<forall>f s. lookup_rows (files st) f s =
        (if 1 \<le> f \<and> 1 \<le> s \<and> s \<le> G \<and> (f \<le> a \<or> (f = a + 1 \<and> s \<le> b)) then Some R
         else if f = a + 1 \<and> s = b + 1 \<and> 0 < r then Some r else None)) \<and>
     (\<forall>f. (files st f \<noteq> None) = (1 \<le> f \<and> (f \<le> a \<or> (f = a + 1 \<and> (0 < b \<or> 0 < r))))) \<and>
     (\<forall>f s. target_rows (data_segments st) f s =
        (case lookup_rows (files st) f s of None \<Rightarrow> 0 | Some n \<Rightarrow> n)) \<and>
     (\<forall>g \<in> set (data_segments st). 0 < num_rows g) \<and>
     sum_list (map num_rows (data_segments st)) = (a * G + b) * R + r \<and>
     sorted (map seg_target (data_segments st)) \<and>
     (\<forall>g \<in> set (data_segments st). seg_target g \<le> (a + 1, b + 1))"

text \<open>
  The state after the \<^verbatim>\<open>if rows_to_copy > 0\<close> branch, before the sheet is advanced.
\<close>

definition copy_state :: "string \<Rightarrow> int \<Rightarrow> int \<Rightarrow> int \<Rightarrow> plan_state \<Rightarrow> plan_state" where
  "copy_state name p cur c st =
     st\<lparr>data_segments := data_segments st @
           [\<lparr>input_sheet = name, start_row = p, num_rows = c,
             output_file = current_file st, output_sheet = current_sheet st\<rparr>],
        current_positions := (current_positions st)(name \<mapsto> p + c),
        files := (files st)(current_file st \<mapsto>
                   (case files st (current_file st) of None \<Rightarrow> Map.empty | Some m \<Rightarrow> m)
                     (current_sheet st \<mapsto> cur + c)),
        rows_processed := rows_processed st + c,
        remaining_data_rows := remaining_data_rows st - c\<rparr>"

text \<open>
  The segments \<open>gs\<close> cover the rows \<open>p\<close> up to \<open>q\<close> of sheet \<open>name\<close> contiguously,
  in order, each with at least one row.
\<close>

fun chain :: "string \<Rightarrow> int \<Rightarrow> segment list \<Rightarrow> int \<Rightarrow> bool" where
  "chain name p [] q = (p = q)"
| "chain name p (g # gs) q =
     (input_sheet g = name \<and> start_row g = p \<and> 0 < num_rows g \<and>
      chain name (p + num_rows g) gs q)"

text \<open>
  \<^verbatim>\<open>sheets_info[n]["data_rows"]\<close>.
\<close>

definition data_rows_of :: "input_analysis \<Rightarrow> string \<Rightarrow> int" where
  "data_rows_of ia n = (case sheets_info ia n of None \<Rightarrow> 0 | Some (t, d) \<Rightarrow> d)"

text \<open>
  The segments cover the sheets \<open>ms\<close> in order, each from row 0 to its row count.
\<close>

fun sheets_chain :: "input_analysis \<Rightarrow> string list \<Rightarrow> segment list \<Rightarrow> bool" where
  "sheets_chain ia [] segs = (segs = [])"
| "sheets_chain ia (m # ms) segs =
     (\<exists>xs ys. segs = xs @ ys \<and> chain m 0 xs (data_rows_of ia m) \<and> sheets_chain ia ms ys)"

text \<open>
  An analysis the planner is specified for: distinct sheet names (as in every
  workbook), a non-negative row count for each of them, and their sum as total.
\<close>

definition analysis_ok :: "input_analysis \<Rightarrow> bool" where
  "analysis_ok ia \<longleftrightarrow>
     distinct (sheet_names ia) \<and>
     (\<forall>n \<in> set (sheet_names ia). \<exists>t d. sheets_info ia n = Some (t, d) \<and> 0 \<le> d) \<and>
     total_data_rows ia = sum_list (map (data_rows_of ia) (sheet_names ia))"

text \<open>
  The workbook has every analysed sheet, with the analysed number of data rows.
\<close>

definition workbook_matches :: "input_analysis \<Rightarrow> (string, 'a) workbook \<Rightarrow> bool" where
  "workbook_matches ia wb \<longleftrightarrow>
     (\<forall>n \<in> set (sheet_names ia).
        \<exists>df. map_of wb n = Some df \<and> data_rows_of ia n = int (length (rows df)))"



text \<open>A workbook with the row counts of the worked example.\<close>

definition example_workbook :: "(string, nat) workbook" where
  "example_workbook =
     [(''A'', \<lparr>columns = [''serial'', ''qri''],
              rows = [[1, 10], [2, 20], [3, 30], [4, 40], [5, 50], [6, 60], [7, 70]]\<rparr>),
      (''B'', \<lparr>columns = [''serial'', ''qri''],
              rows = [[8, 80], [9, 90], [10, 100], [11, 110], [12, 120]]\<rparr>)]"

text \<open>A source that cannot be opened.\<close>

definition unreadable_env :: source_env where
  "unreadable_env =
     \<lparr>excel_sheet_names = Inl OtherError,
      openpyxl_max_row = (\<lambda>n. Inl OtherError),
      pandas_chunk_rows = (\<lambda>n. Inl OtherError)\<rparr>"

text \<open>
  A source whose sheet A is listed and then gone: \<^verbatim>\<open>wb[sheet_name]\<close> raises
  \<^verbatim>\<open>KeyError\<close> and the fallback's \<^verbatim>\<open>pd.read_excel\<close> raises \<^verbatim>\<open>ValueError\<close>.
\<close>

definition vanished_env :: source_env where
  "vanished_env =
     \<lparr>excel_sheet_names = Inr [''A''],
      openpyxl_max_row = (\<lambda>n. Inl KeyError),
      pandas_chunk_rows = (\<lambda>n. Inl ValueError)\<rparr>"

text \<open>A workbook with a sheet of three columns and a sheet of one column.\<close>

definition wide_workbook :: "(string, nat) workbook" where
  "wide_workbook =
     [(''W'', \<lparr>columns = [''serial'', ''qri'', ''note''], rows = [[1, 2, 3], [4, 5, 6]]\<rparr>),
      (''N'', \<lparr>columns = [''serial''], rows = [[7], [8]]\<rparr>)]"

text \<open>The records stored in sheet \<open>s\<close> of output file \<open>f\<close>, when the sheet exists.\<close>

definition stored_rows :: "'a store \<Rightarrow> int \<Rightarrow> int \<Rightarrow> 'a list list option" where
  "stored_rows store f s =
     (case store f of None \<Rightarrow> None | Some wb \<Rightarrow> map_option rows (map_of wb s))"

text \<open>The same for the output directory a call returns; \<open>None\<close> when the call raises.\<close>

definition target_after :: "error + 'a store \<Rightarrow> int \<Rightarrow> int \<Rightarrow> 'a list list option" where
  "target_after res f s = (case res of Inl e \<Rightarrow> None | Inr store \<Rightarrow> stored_rows store f s)"

text \<open>The second segment of the worked example: A[4:7] to sheet 2 of file 1.\<close>

definition example_segment :: segment where
  "example_segment =
     \<lparr>input_sheet = ''A'', start_row = 4, num_rows = 3, output_file = 1, output_sheet = 2\<rparr>"

text \<open>An output directory whose file 1 holds the batch A[4:7] in sheet 2.\<close>

definition written_once :: "nat store" where
  "written_once =
     [1 \<mapsto> [(2, \<lparr>columns = [''serial'', ''qri''], rows = [[5, 50], [6, 60], [7, 70]]\<rparr>)]]"

text \<open>The locked write fails; the recovery succeeds, or fails as well.\<close>

definition write_fault :: faults where
  "write_fault = \<lparr>probe_fails = False, write_fails = True, rewrite_fails = False\<rparr>"

definition both_fault :: faults where
  "both_fault = \<lparr>probe_fails = False, write_fails = True, rewrite_fails = True\<rparr>"

text \<open>
  The output directory holds nothing but what the processed segments \<open>prior\<close> brought:
  every stored sheet is the destination of one of them and has at most as many records
  as they assign to it.
\<close>

definition tracks :: "segment list \<Rightarrow> 'a store \<Rightarrow> bool" where
  "tracks prior store \<longleftrightarrow>
     (\<forall>f wb. store f = Some wb \<longrightarrow>
        distinct (map fst wb) \<and>
        (\<forall>s df. map_of wb s = Some df \<longrightarrow>
           (f, s) \<in> seg_target ` set prior \<and>
           int (length (rows df)) \<le> target_rows prior f s))"

text \<open>
  The workbook \<open>wb'\<close> is the output file of segment \<open>g\<close> after one call: the
  target sheet has grown by at most the segment's length, the other sheets are as before.
\<close>

definition sheet_added :: "'a store \<Rightarrow> segment \<Rightarrow> (int, 'a) workbook \<Rightarrow> bool" where
  "sheet_added store g wb' \<longleftrightarrow>
     distinct (map fst wb') \<and>
     (\<exists>new. map_of wb' (output_sheet g) = Some new \<and>
        int (length (rows new)) \<le>
          (case stored_rows store (output_file g) (output_sheet g) of
             None \<Rightarrow> 0 | Some rs \<Rightarrow> int (length rs)) + num_rows g) \<and>
     (\<forall>s' df. s' \<noteq> output_sheet g \<longrightarrow> map_of wb' s' = Some df \<longrightarrow>
        (\<exists>wb. store (output_file g) = Some wb \<and> map_of wb s' = Some df))"

text \<open>
  The capacity limits on an output directory: every file holds at most \<open>G\<close> sheets
  (with distinct numbers) and every sheet at most \<open>R\<close> records.
\<close>

definition store_within :: "int \<Rightarrow> int \<Rightarrow> 'a store \<Rightarrow> bool" where
  "store_within G R store \<longleftrightarrow>
     (\<forall>f wb. store f = Some wb \<longrightarrow>
        distinct (map fst wb) \<and> int (length wb) \<le> G \<and>
        (\<forall>(s, df) \<in> set wb. int (length (rows df)) \<le> R))"

text \<open>
  An output directory of the staged emission: sheet numbers between 1 and \<open>G\<close>,
  distinct in each file, and at most \<open>R\<close> records in each sheet.
\<close>

definition emitted_ok :: "int \<Rightarrow> int \<Rightarrow> 'a store \<Rightarrow> bool" where
  "emitted_ok G R store \<longleftrightarrow>
     (\<forall>f wb. store f = Some wb \<longrightarrow>
        distinct (map fst wb) \<and> fst ` set wb \<subseteq> {1..G} \<and>
        (\<forall>(s, df) \<in> set wb. int (length (rows df)) \<le> R))"

text \<open>
  A schedule for the worked example: the segment B[0:1] runs before A[4:7], whose locked
  write fails and is recovered; the other two segments have not run yet.
\<close>

definition example_schedule :: "(faults \<times> segment) list" where
  "example_schedule =
     [(no_faults, \<lparr>input_sheet = ''B'', start_row = 0, num_rows = 1,
                   output_file = 1, output_sheet = 2\<rparr>),
      (write_fault, example_segment)]"

text \<open>
  The four segments of the worked example's plan in plan order, each call meeting the
  faults \<open>fl\<close>.
\<close>

definition example_plan_run :: "faults \<Rightarrow> (faults \<times> segment) list" where
  "example_plan_run fl =
     [(fl, \<lparr>input_sheet = ''A'', start_row = 0, num_rows = 4,
             output_file = 1, output_sheet = 1\<rparr>),
      (fl, \<lparr>input_sheet = ''A'', start_row = 4, num_rows = 3,
             output_file = 1, output_sheet = 2\<rparr>),
      (fl, \<lparr>input_sheet = ''B'', start_row = 0, num_rows = 1,
             output_file = 1, output_sheet = 2\<rparr>),
      (fl, \<lparr>input_sheet = ''B'', start_row = 1, num_rows = 4,
             output_file = 2, output_sheet = 1\<rparr>)]"

text \<open>The same segments when the third takes the lock of file 1 before the second.\<close>

definition example_plan_run_swapped :: "(faults \<times> segment) list" where
  "example_plan_run_swapped =
     [(no_faults, \<lparr>input_sheet = ''A'', start_row = 0, num_rows = 4,
                   output_file = 1, output_sheet = 1\<rparr>),
      (no_faults, \<lparr>input_sheet = ''B'', start_row = 0, num_rows = 1,
                   output_file = 1, output_sheet = 2\<rparr>),
      (no_faults, \<lparr>input_sheet = ''A'', start_row = 4, num_rows = 3,
                   output_file = 1, output_sheet = 2\<rparr>),
      (no_faults, \<lparr>input_sheet = ''B'', start_row = 1, num_rows = 4,
                   output_file = 2, output_sheet = 1\<rparr>)]"

section \<open>The planner on the worked example\<close>

lemma example_plan:
  "calculate_output_distribution example_analysis 2 4 =
     Some (Inr \<lparr>od_files = [1 \<mapsto> [1 \<mapsto> 4, 2 \<mapsto> 4], 2 \<mapsto> [1 \<mapsto> 4]],
                total_output_files = 2, total_output_sheets = 3,
                od_data_segments =
                  [\<lparr>input_sheet = ''A'', start_row = 0, num_rows = 4,
                    output_file = 1, output_sheet = 1\<rparr>,
                   \<lparr>input_sheet = ''A'', start_row = 4, num_rows = 3,
                    output_file = 1, output_sheet = 2\<rparr>,
                   \<lparr>input_sheet = ''B'', start_row = 0, num_rows = 1,
                    output_file = 1, output_sheet = 2\<rparr>,
                   \<lparr>input_sheet = ''B'', start_row = 1, num_rows = 4,
                    output_file = 2, output_sheet = 1\<rparr>]\<rparr>)"
  by (simp add: calculate_output_distribution_def example_analysis_def ceil_div_def
        initial_state_def fill_sheet.simps fill_step_def advance_sheet_def Let_def)

text \<open>
  Claim C2. For the input groups A with 7 records and B with 5 records, 4 records per
  output group and 2 groups per artifact, the planner returns exactly the segments
  A[0:4] to (artifact 1, group 1), A[4:7] then B[0:1] to (artifact 1, group 2) and
  B[1:5] to (artifact 2, group 1): artifact 1 holds two full groups, artifact 2 one,
  and the totals are 3 output groups in 2 artifacts.
\<close>

theorem worked_example_plan:
  "calculate_output_distribution example_analysis 2 4 =
     Some (Inr \<lparr>od_files = [1 \<mapsto> [1 \<mapsto> 4, 2 \<mapsto> 4], 2 \<mapsto> [1 \<mapsto> 4]],
                total_output_files = 2, total_output_sheets = 3,
                od_data_segments =
                  [\<lparr>input_sheet = ''A'', start_row = 0, num_rows = 4,
                    output_file = 1, output_sheet = 1\<rparr>,
                   \<lparr>input_sheet = ''A'', start_row = 4, num_rows = 3,
                    output_file = 1, output_sheet = 2\<rparr>,
                   \<lparr>input_sheet = ''B'', start_row = 0, num_rows = 1,
                    output_file = 1, output_sheet = 2\<rparr>,
                   \<lparr>input_sheet = ''B'', start_row = 1, num_rows = 4,
                    output_file = 2, output_sheet = 1\<rparr>]\<rparr>)"
  by (rule example_plan)

lemma fill_sheet_rule:
  assumes I: "I st"
    and step: "\<And>s. I s \<Longrightarrow> rows_processed s < n \<Longrightarrow>
       \<exists>s'. fill_step name n G R s = Inr s' \<and> I s' \<and> rows_processed s < rows_processed s'"
  shows "\<exists>s'. fill_sheet name n G R st = Some (Inr s') \<and> I s' \<and> \<not> rows_processed s' < n"
  using I
proof (induction "nat (n - rows_processed st)" arbitrary: st rule: less_induct)
  case less
  show ?case
  proof (cases "rows_processed st < n")
    case False
    then show ?thesis using less.prems by (subst fill_sheet.simps) simp
  next
    case True
    obtain s' where s': "fill_step name n G R st = Inr s'" "I s'"
        "rows_processed st < rows_processed s'"
      using step[OF less.prems True] by blast
    have "nat (n - rows_processed s') < nat (n - rows_processed st)"
      using True s'(3) by linarith
    from less.hyps[OF this s'(2)] obtain s'' where
      "fill_sheet name n G R s' = Some (Inr s'')" "I s''" "\<not> rows_processed s'' < n"
      by blast
    then show ?thesis using True s'(1) by (subst fill_sheet.simps) simp
  qed
qed

lemma lookup_rows_upd:
  "lookup_rows (F(f0 \<mapsto> (case F f0 of None \<Rightarrow> Map.empty | Some m \<Rightarrow> m)(s0 \<mapsto> v))) f s =
     (if f = f0 \<and> s = s0 then Some v else lookup_rows F f s)"
  by (auto simp: lookup_rows_def split: option.splits)

lemma target_rows_snoc:
  "target_rows (segs @ [g]) f s =
     target_rows segs f s + (if output_file g = f \<and> output_sheet g = s then num_rows g else 0)"
  by (simp add: target_rows_def)

lemma fill_step_copy:
  assumes pos: "current_positions st name = Some p"
    and cur: "cur = (case lookup_rows (files st) (current_file st) (current_sheet st) of
                       None \<Rightarrow> 0 | Some k \<Rightarrow> k)"
    and c: "c = min (n - rows_processed st) (R - cur)" "0 < c"
  shows "fill_step name n G R st =
           Inr (if cur + c \<ge> R then advance_sheet G (copy_state name p cur c st)
                else copy_state name p cur c st)"
  using assms
  by (auto simp: fill_step_def Let_def lookup_rows_def copy_state_def split: option.splits)

lemma shape_cur:
  assumes "plan_shape G R a b r st"
  shows "(case lookup_rows (files st) (current_file st) (current_sheet st) of
            None \<Rightarrow> 0 | Some k \<Rightarrow> k) = r"
proof -
  have cf: "current_file st = a + 1" "current_sheet st = b + 1" "0 \<le> r"
    using assms by (simp_all add: plan_shape_def)
  have "lookup_rows (files st) (a + 1) (b + 1) = (if 0 < r then Some r else None)"
    using assms unfolding plan_shape_def by simp
  then show ?thesis using cf by simp
qed

lemma copy_state_shape_open:
  assumes sh: "plan_shape G R a b r st" and c: "0 < c" "r + c < R"
  shows "plan_shape G R a b (r + c) (copy_state name p r c st)"
proof -
  have cf: "current_file st = a + 1" "current_sheet st = b + 1"
    using sh by (simp_all add: plan_shape_def)
  have bnd: "0 \<le> a" "0 \<le> b" "b < G" "0 \<le> r" "r < R"
    using sh by (simp_all add: plan_shape_def)
  have L: "\<And>f s. lookup_rows (files st) f s =
        (if 1 \<le> f \<and> 1 \<le> s \<and> s \<le> G \<and> (f \<le> a \<or> (f = a + 1 \<and> s \<le> b)) then Some R
         else if f = a + 1 \<and> s = b + 1 \<and> 0 < r then Some r else None)"
    using sh by (simp add: plan_shape_def)
  have D: "\<And>f. (files st f \<noteq> None) = (1 \<le> f \<and> (f \<le> a \<or> (f = a + 1 \<and> (0 < b \<or> 0 < r))))"
    using sh unfolding plan_shape_def by blast
  have T: "\<And>f s. target_rows (data_segments st) f s =
        (case lookup_rows (files st) f s of None \<Rightarrow> 0 | Some n \<Rightarrow> n)"
    using sh by (simp add: plan_shape_def)
  have P: "\<forall>g \<in> set (data_segments st). 0 < num_rows g"
    and S: "sum_list (map num_rows (data_segments st)) = (a * G + b) * R + r"
    and O: "sorted (map seg_target (data_segments st))"
    and M: "\<forall>g \<in> set (data_segments st). seg_target g \<le> (a + 1, b + 1)"
    using sh by (simp_all add: plan_shape_def)
  let ?st = "copy_state name p r c st"
  have L': "\<And>f s. lookup_rows (files ?st) f s =
        (if f = a + 1 \<and> s = b + 1 then Some (r + c) else lookup_rows (files st) f s)"
    by (simp add: copy_state_def cf lookup_rows_upd)
  have 1: "\<forall>f s. lookup_rows (files ?st) f s =
        (if 1 \<le> f \<and> 1 \<le> s \<and> s \<le> G \<and> (f \<le> a \<or> (f = a + 1 \<and> s \<le> b)) then Some R
         else if f = a + 1 \<and> s = b + 1 \<and> 0 < r + c then Some (r + c) else None)"
    using bnd c by (auto simp: L' L)
  have 2: "\<forall>f. (files ?st f \<noteq> None) =
        (1 \<le> f \<and> (f \<le> a \<or> (f = a + 1 \<and> (0 < b \<or> 0 < r + c))))"
    using bnd c D by (auto simp: copy_state_def cf)
  have segs: "data_segments ?st = data_segments st @
      [\<lparr>input_sheet = name, start_row = p, num_rows = c, output_file = a + 1,
        output_sheet = b + 1\<rparr>]"
    by (simp add: copy_state_def cf)
  have 3: "\<forall>f s. target_rows (data_segments ?st) f s =
        (case lookup_rows (files ?st) f s of None \<Rightarrow> 0 | Some n \<Rightarrow> n)"
    using bnd c by (auto simp: L' segs target_rows_snoc T L)
  have 4: "\<forall>g \<in> set (data_segments ?st). 0 < num_rows g"
    using P c by (auto simp: copy_state_def)
  have 5: "sum_list (map num_rows (data_segments ?st)) = (a * G + b) * R + (r + c)"
    using S by (simp add: copy_state_def)
  have 6: "sorted (map seg_target (data_segments ?st))"
    using O M by (auto simp: copy_state_def sorted_append seg_target_def cf)
  have 7: "\<forall>g \<in> set (data_segments ?st). seg_target g \<le> (a + 1, b + 1)"
    using M by (auto simp: copy_state_def seg_target_def cf)
  have 8: "current_file ?st = a + 1" "current_sheet ?st = b + 1"
    by (simp_all add: copy_state_def cf)
  show ?thesis
    unfolding plan_shape_def using bnd c 1 2 3 4 5 6 7 8 by simp
qed

lemma copy_state_shape_next:
  assumes sh: "plan_shape G R a b r st" and c: "0 < c" "r + c = R" and b: "b + 1 < G"
  shows "plan_shape G R a (b + 1) 0 (advance_sheet G (copy_state name p r c st))"
proof -
  have cf: "current_file st = a + 1" "current_sheet st = b + 1"
    using sh by (simp_all add: plan_shape_def)
  have bnd: "0 \<le> a" "0 \<le> b" "b < G" "0 \<le> r" "r < R"
    using sh by (simp_all add: plan_shape_def)
  have L: "\<And>f s. lookup_rows (files st) f s =
        (if 1 \<le> f \<and> 1 \<le> s \<and> s \<le> G \<and> (f \<le> a \<or> (f = a + 1 \<and> s \<le> b)) then Some R
         else if f = a + 1 \<and> s = b + 1 \<and> 0 < r then Some r else None)"
    using sh by (simp add: plan_shape_def)
  have D: "\<And>f. (files st f \<noteq> None) = (1 \<le> f \<and> (f \<le> a \<or> (f = a + 1 \<and> (0 < b \<or> 0 < r))))"
    using sh unfolding plan_shape_def by blast
  have T: "\<And>f s. target_rows (data_segments st) f s =
        (case lookup_rows (files st) f s of None \<Rightarrow> 0 | Some n \<Rightarrow> n)"
    using sh by (simp add: plan_shape_def)
  have P: "\<forall>g \<in> set (data_segments st). 0 < num_rows g"
    and S: "sum_list (map num_rows (data_segments st)) = (a * G + b) * R + r"
    and O: "sorted (map seg_target (data_segments st))"
    and M: "\<forall>g \<in> set (data_segments st). seg_target g \<le> (a + 1, b + 1)"
    using sh by (simp_all add: plan_shape_def)
  let ?cp = "copy_state name p r c st"
  have L': "\<And>f s. lookup_rows (files ?cp) f s =
        (if f = a + 1 \<and> s = b + 1 then Some (r + c) else lookup_rows (files st) f s)"
    by (simp add: copy_state_def cf lookup_rows_upd)
  have D': "\<And>f. (files ?cp f \<noteq> None) = (f = a + 1 \<or> files st f \<noteq> None)"
    by (simp add: copy_state_def cf)
  have segs: "data_segments ?cp = data_segments st @
      [\<lparr>input_sheet = name, start_row = p, num_rows = c, output_file = a + 1,
        output_sheet = b + 1\<rparr>]"
    by (simp add: copy_state_def cf)
  have cf': "current_file ?cp = a + 1" "current_sheet ?cp = b + 1"
    by (simp_all add: copy_state_def cf)

  let ?st = "advance_sheet G ?cp"
  have adv: "files ?st = files ?cp" "data_segments ?st = data_segments ?cp"
      "current_file ?st = a + 1" "current_sheet ?st = b + 1 + 1"
    using b by (simp_all add: advance_sheet_def Let_def cf')
  have 1: "\<forall>f s. lookup_rows (files ?st) f s =
        (if 1 \<le> f \<and> 1 \<le> s \<and> s \<le> G \<and> (f \<le> a \<or> (f = a + 1 \<and> s \<le> b + 1)) then Some R
         else if f = a + 1 \<and> s = b + 1 + 1 \<and> 0 < (0::int) then Some 0 else None)"
    using bnd c b by (auto simp: adv L' L)
  have 2: "\<forall>f. (files ?st f \<noteq> None) =
        (1 \<le> f \<and> (f \<le> a \<or> (f = a + 1 \<and> (0 < b + 1 \<or> 0 < (0::int)))))"
    unfolding adv(1) D' D using bnd c b by auto
  have 3: "\<forall>f s. target_rows (data_segments ?st) f s =
        (case lookup_rows (files ?st) f s of None \<Rightarrow> 0 | Some n \<Rightarrow> n)"
    using bnd c by (auto simp: adv L' segs target_rows_snoc T L)
  have 4: "\<forall>g \<in> set (data_segments ?st). 0 < num_rows g"
    using P c by (auto simp: adv segs)
  have "(a * G + (b + 1)) * R = (a * G + b) * R + R"
    by (simp add: algebra_simps)
  then have 5: "sum_list (map num_rows (data_segments ?st)) = (a * G + (b + 1)) * R + 0"
    using S c by (simp add: adv segs)
  have 6: "sorted (map seg_target (data_segments ?st))"
    using O M by (auto simp: adv segs sorted_append seg_target_def)
  have 7: "\<forall>g \<in> set (data_segments ?st). seg_target g \<le> (a + 1, b + 1 + 1)"
    using M by (fastforce simp: adv segs seg_target_def)
  show ?thesis
    unfolding plan_shape_def using bnd c b 1 2 3 4 5 6 7 adv(3,4) by simp
qed

lemma copy_state_shape_wrap:
  assumes sh: "plan_shape G R a b r st" and c: "0 < c" "r + c = R" and b: "\<not> b + 1 < G"
  shows "plan_shape G R (a + 1) 0 0 (advance_sheet G (copy_state name p r c st))"
proof -
  have cf: "current_file st = a + 1" "current_sheet st = b + 1"
    using sh by (simp_all add: plan_shape_def)
  have bnd: "0 \<le> a" "0 \<le> b" "b < G" "0 \<le> r" "r < R"
    using sh by (simp_all add: plan_shape_def)
  have L: "\<And>f s. lookup_rows (files st) f s =
        (if 1 \<le> f \<and> 1 \<le> s \<and> s \<le> G \<and> (f \<le> a \<or> (f = a + 1 \<and> s \<le> b)) then Some R
         else if f = a + 1 \<and> s = b + 1 \<and> 0 < r then Some r else None)"
    using sh by (simp add: plan_shape_def)
  have D: "\<And>f. (files st f \<noteq> None) = (1 \<le> f \<and> (f \<le> a \<or> (f = a + 1 \<and> (0 < b \<or> 0 < r))))"
    using sh unfolding plan_shape_def by blast
  have T: "\<And>f s. target_rows (data_segments st) f s =
        (case lookup_rows (files st) f s of None \<Rightarrow> 0 | Some n \<Rightarrow> n)"
    using sh by (simp add: plan_shape_def)
  have P: "\<forall>g \<in> set (data_segments st). 0 < num_rows g"
    and S: "sum_list (map num_rows (data_segments st)) = (a * G + b) * R + r"
    and O: "sorted (map seg_target (data_segments st))"
    and M: "\<forall>g \<in> set (data_segments st). seg_target g \<le> (a + 1, b + 1)"
    using sh by (simp_all add: plan_shape_def)
  let ?cp = "copy_state name p r c st"
  have L': "\<And>f s. lookup_rows (files ?cp) f s =
        (if f = a + 1 \<and> s = b + 1 then Some (r + c) else lookup_rows (files st) f s)"
    by (simp add: copy_state_def cf lookup_rows_upd)
  have D': "\<And>f. (files ?cp f \<noteq> None) = (f = a + 1 \<or> files st f \<noteq> None)"
    by (simp add: copy_state_def cf)
  have segs: "data_segments ?cp = data_segments st @
      [\<lparr>input_sheet = name, start_row = p, num_rows = c, output_file = a + 1,
        output_sheet = b + 1\<rparr>]"
    by (simp add: copy_state_def cf)
  have cf': "current_file ?cp = a + 1" "current_sheet ?cp = b + 1"
    by (simp_all add: copy_state_def cf)

  let ?st = "advance_sheet G ?cp"
  have bG: "b = G - 1" using b bnd by linarith
  have adv: "files ?st = files ?cp" "data_segments ?st = data_segments ?cp"
      "current_file ?st = a + 1 + 1" "current_sheet ?st = 0 + 1"
    using b by (simp_all add: advance_sheet_def Let_def cf')
  have 1: "\<forall>f s. lookup_rows (files ?st) f s =
        (if 1 \<le> f \<and> 1 \<le> s \<and> s \<le> G \<and> (f \<le> a + 1 \<or> (f = a + 1 + 1 \<and> s \<le> 0)) then Some R
         else if f = a + 1 + 1 \<and> s = 0 + 1 \<and> 0 < (0::int) then Some 0 else None)"
    using bnd c bG by (auto simp: adv L' L)
  have 2: "\<forall>f. (files ?st f \<noteq> None) =
        (1 \<le> f \<and> (f \<le> a + 1 \<or> (f = a + 1 + 1 \<and> (0 < (0::int) \<or> 0 < (0::int)))))"
    unfolding adv(1) D' D using bnd c b by auto
  have 3: "\<forall>f s. target_rows (data_segments ?st) f s =
        (case lookup_rows (files ?st) f s of None \<Rightarrow> 0 | Some n \<Rightarrow> n)"
    using bnd c by (auto simp: adv L' segs target_rows_snoc T L)
  have 4: "\<forall>g \<in> set (data_segments ?st). 0 < num_rows g"
    using P c by (auto simp: adv segs)
  have "((a + 1) * G + 0) * R = (a * G + b) * R + R"
    by (simp add: algebra_simps bG)
  then have 5: "sum_list (map num_rows (data_segments ?st)) = ((a + 1) * G + 0) * R + 0"
    using S c by (simp add: adv segs)
  have 6: "sorted (map seg_target (data_segments ?st))"
    using O M by (auto simp: adv segs sorted_append seg_target_def)
  have 7: "\<forall>g \<in> set (data_segments ?st). seg_target g \<le> (a + 1 + 1, 0 + 1)"
    using M by (fastforce simp: adv segs seg_target_def)
  have G: "0 < G" using bnd by linarith
  show ?thesis
    unfolding plan_shape_def using bnd c G 1 2 3 4 5 6 7 adv(3,4) by simp
qed

lemma chain_snoc:
  "chain name p xs q \<Longrightarrow> input_sheet g = name \<Longrightarrow> start_row g = q \<Longrightarrow> 0 < num_rows g \<Longrightarrow>
     chain name p (xs @ [g]) (q + num_rows g)"
  by (induction xs arbitrary: p) auto

lemma fill_step_shape:
  assumes sh: "plan_shape G R a b r st" and lt: "rows_processed st < n"
    and pos: "current_positions st name = Some p"
  shows "\<exists>c a' b' r' st'. 0 < c \<and> rows_processed st + c \<le> n \<and>
           fill_step name n G R st = Inr st' \<and> plan_shape G R a' b' r' st' \<and>
           rows_processed st' = rows_processed st + c \<and>
           (\<exists>f s. data_segments st' = data_segments st @
              [\<lparr>input_sheet = name, start_row = p, num_rows = c,
                output_file = f, output_sheet = s\<rparr>]) \<and>
           current_positions st' = (current_positions st)(name \<mapsto> p + c)"
proof -
  define c where "c = min (n - rows_processed st) (R - r)"
  have bnd: "0 \<le> r" "r < R" using sh by (simp_all add: plan_shape_def)
  have c: "0 < c" "rows_processed st + c \<le> n" "r + c \<le> R"
    using lt bnd by (simp_all add: c_def)
  let ?cp = "copy_state name p r c st"
  have step: "fill_step name n G R st =
      Inr (if r + c \<ge> R then advance_sheet G ?cp else ?cp)"
    by (rule fill_step_copy[OF pos]) (simp_all add: shape_cur[OF sh] c_def[symmetric] c)
  have cp: "rows_processed ?cp = rows_processed st + c"
      "data_segments ?cp = data_segments st @
         [\<lparr>input_sheet = name, start_row = p, num_rows = c,
           output_file = current_file st, output_sheet = current_sheet st\<rparr>]"
      "current_positions ?cp = (current_positions st)(name \<mapsto> p + c)"
    by (simp_all add: copy_state_def)
  have adv: "rows_processed (advance_sheet G ?cp) = rows_processed ?cp"
      "data_segments (advance_sheet G ?cp) = data_segments ?cp"
      "current_positions (advance_sheet G ?cp) = current_positions ?cp"
    by (simp_all add: advance_sheet_def Let_def)
  show ?thesis
  proof (cases "r + c < R")
    case True
    have "plan_shape G R a b (r + c) ?cp"
      by (rule copy_state_shape_open[OF sh c(1) True])
    then show ?thesis using True c step cp by auto
  next
    case False
    then have full: "r + c = R" using c(3) by simp
    show ?thesis
    proof (cases "b + 1 < G")
      case True
      have "plan_shape G R a (b + 1) 0 (advance_sheet G ?cp)"
        by (rule copy_state_shape_next[OF sh c(1) full True])
      then show ?thesis using full c step cp adv by auto
    next
      case False
      have "plan_shape G R (a + 1) 0 0 (advance_sheet G ?cp)"
        by (rule copy_state_shape_wrap[OF sh c(1) full False])
      then show ?thesis using full c step cp adv by auto
    qed
  qed
qed

lemma fill_sheet_shape:
  assumes sh: "plan_shape G R a b r st" and rp: "rows_processed st = 0" and n: "0 \<le> n"
    and pos: "current_positions st name = Some 0"
  shows "\<exists>st' a' b' r' new. fill_sheet name n G R st = Some (Inr st') \<and>
           plan_shape G R a' b' r' st' \<and> data_segments st' = data_segments st @ new \<and>
           chain name 0 new n \<and> current_positions st' = (current_positions st)(name \<mapsto> n)"
proof -
  define I where "I s \<longleftrightarrow> (\<exists>a b r new. plan_shape G R a b r s \<and>
      data_segments s = data_segments st @ new \<and> chain name 0 new (rows_processed s) \<and>
      current_positions s = (current_positions st)(name \<mapsto> rows_processed s) \<and>
      rows_processed s \<le> n)" for s
  have "current_positions st = (current_positions st)(name \<mapsto> 0)"
    using pos by (simp add: map_upd_triv)
  then have I0: "I st" unfolding I_def using sh rp n by (intro exI[of _ a] exI[of _ b] exI[of _ r] exI[of _ "[]"]) simp
  have istep: "\<exists>s'. fill_step name n G R s = Inr s' \<and> I s' \<and> rows_processed s < rows_processed s'"
    if "I s" "rows_processed s < n" for s
  proof -
    from that(1) obtain a1 b1 r1 new where
      s: "plan_shape G R a1 b1 r1 s" "data_segments s = data_segments st @ new"
         "chain name 0 new (rows_processed s)"
         "current_positions s = (current_positions st)(name \<mapsto> rows_processed s)"
      unfolding I_def by blast
    have ps: "current_positions s name = Some (rows_processed s)" using s(4) by simp
    from fill_step_shape[OF s(1) that(2) ps] obtain c a' b' r' s' f sh' where
      st: "0 < c" "rows_processed s + c \<le> n" "fill_step name n G R s = Inr s'"
          "plan_shape G R a' b' r' s'" "rows_processed s' = rows_processed s + c"
          "data_segments s' = data_segments s @
              [\<lparr>input_sheet = name, start_row = rows_processed s, num_rows = c,
                output_file = f, output_sheet = sh'\<rparr>]"
          "current_positions s' = (current_positions s)(name \<mapsto> rows_processed s + c)"
      by blast
    have ch: "chain name 0 (new @ [\<lparr>input_sheet = name, start_row = rows_processed s,
        num_rows = c, output_file = f, output_sheet = sh'\<rparr>]) (rows_processed s')"
      using chain_snoc[OF s(3), of "\<lparr>input_sheet = name, start_row = rows_processed s,
        num_rows = c, output_file = f, output_sheet = sh'\<rparr>"] st(1,5) by simp
    have "I s'" unfolding I_def
      using st(4) st(6) s(2) ch st(7) s(4) st(5) st(2)
      by (intro exI[of _ a'] exI[of _ b'] exI[of _ r']
            exI[of _ "new @ [\<lparr>input_sheet = name, start_row = rows_processed s,
               num_rows = c, output_file = f, output_sheet = sh'\<rparr>]"]) simp
    then show ?thesis using st(3,5,1) by auto
  qed
  from fill_sheet_rule[of I st n name G R, OF I0 istep]
  obtain s' where s': "fill_sheet name n G R st = Some (Inr s')" "I s'" "\<not> rows_processed s' < n"
    by blast
  from s'(2,3) have "rows_processed s' = n" unfolding I_def by auto
  with s'(1,2) show ?thesis unfolding I_def by auto
qed

lemma plan_shape_rows_processed [simp]:
  "plan_shape G R a b r (st\<lparr>rows_processed := k\<rparr>) = plan_shape G R a b r st"
  by (simp add: plan_shape_def)

lemma for_sheets_shape:
  assumes "plan_shape G R a b r st" "distinct names"
    and "\<forall>m \<in> set names. current_positions st m = Some 0"
    and "\<forall>m \<in> set names. \<exists>t d. sheets_info ia m = Some (t, d) \<and> 0 \<le> d"
  shows "\<exists>st' a' b' r' new. for_sheets ia G R names st = Some (Inr st') \<and>
           plan_shape G R a' b' r' st' \<and> data_segments st' = data_segments st @ new \<and>
           sheets_chain ia names new"
  using assms
proof (induction names arbitrary: st a b r)
  case Nil
  then show ?case by auto
next
  case (Cons m ms)
  from Cons.prems(4) obtain t d where info: "sheets_info ia m = Some (t, d)" "0 \<le> d"
    by auto
  let ?st0 = "st\<lparr>rows_processed := 0\<rparr>"
  have sh0: "plan_shape G R a b r ?st0" using Cons.prems(1) by simp
  have pos0: "current_positions ?st0 m = Some 0" using Cons.prems(3) by simp
  from fill_sheet_shape[OF sh0 _ info(2) pos0] obtain st1 a1 b1 r1 new1 where
    f: "fill_sheet m d G R ?st0 = Some (Inr st1)" "plan_shape G R a1 b1 r1 st1"
       "data_segments st1 = data_segments st @ new1" "chain m 0 new1 d"
       "current_positions st1 = (current_positions st)(m \<mapsto> d)"
    by auto
  have d1: "distinct ms" and nin: "m \<notin> set ms" using Cons.prems(2) by auto
  have p1: "\<forall>k \<in> set ms. current_positions st1 k = Some 0"
    using Cons.prems(3) nin by (auto simp: f(5))
  have i1: "\<forall>k \<in> set ms. \<exists>t d. sheets_info ia k = Some (t, d) \<and> 0 \<le> d"
    using Cons.prems(4) by auto
  from Cons.IH[OF f(2) d1 p1 i1] obtain st2 a2 b2 r2 new2 where
    g: "for_sheets ia G R ms st1 = Some (Inr st2)" "plan_shape G R a2 b2 r2 st2"
       "data_segments st2 = data_segments st1 @ new2" "sheets_chain ia ms new2"
    by blast
  have dr: "data_rows_of ia m = d" by (simp add: data_rows_of_def info)
  have "sheets_chain ia (m # ms) (new1 @ new2)"
    using f(4) g(4) dr by auto
  moreover have "for_sheets ia G R (m # ms) st = Some (Inr st2)"
    by (simp add: info f(1) g(1))
  moreover have "data_segments st2 = data_segments st @ (new1 @ new2)"
    by (simp add: g(3) f(3))
  ultimately show ?case using g(2) by blast
qed

lemma initial_state_shape:
  assumes "1 \<le> G" "1 \<le> R"
  shows "plan_shape G R 0 0 0 (initial_state ia)"
  using assms
  by (auto simp: plan_shape_def initial_state_def lookup_rows_def target_rows_def)

lemma initial_positions:
  "m \<in> set (sheet_names ia) \<Longrightarrow> current_positions (initial_state ia) m = Some 0"
  by (induction "sheet_names ia") (auto simp: initial_state_def map_of_map_restrict)

lemma planner_result:
  assumes G: "1 \<le> G" and R: "1 \<le> R" and ok: "analysis_ok ia"
  shows "\<exists>st a b r. calculate_output_distribution ia G R =
             Some (Inr \<lparr>od_files = files st,
                        total_output_files = - ((- (- ((- total_data_rows ia) div R))) div G),
                        total_output_sheets = - ((- total_data_rows ia) div R),
                        od_data_segments = data_segments st\<rparr>) \<and>
           plan_shape G R a b r st \<and> sheets_chain ia (sheet_names ia) (data_segments st)"
proof -
  have d: "distinct (sheet_names ia)"
    and i: "\<forall>m \<in> set (sheet_names ia). \<exists>t d. sheets_info ia m = Some (t, d) \<and> 0 \<le> d"
    using ok by (simp_all add: analysis_ok_def)
  have p: "\<forall>m \<in> set (sheet_names ia). current_positions (initial_state ia) m = Some 0"
    by (simp add: initial_positions)
  from for_sheets_shape[OF initial_state_shape[OF G R] d p i] obtain st a b r new where
    f: "for_sheets ia G R (sheet_names ia) (initial_state ia) = Some (Inr st)"
       "plan_shape G R a b r st" "data_segments st = data_segments (initial_state ia) @ new"
       "sheets_chain ia (sheet_names ia) new"
    by blast
  have "data_segments st = new" using f(3) by (simp add: initial_state_def)
  then show ?thesis using f G R
    by (auto simp: calculate_output_distribution_def ceil_div_def)
qed

lemma chain_sum: "chain name p xs q \<Longrightarrow> sum_list (map num_rows xs) = q - p"
  by (induction xs arbitrary: p) auto

lemma chain_pos: "chain name p xs q \<Longrightarrow> \<forall>h \<in> set xs. 0 < num_rows h"
  by (induction xs arbitrary: p) auto


lemma ceil_rows:
  assumes "0 \<le> r" "r < R"
  shows "- ((- (q * R + r)) div R) = q + (if 0 < r then 1 else (0::int))"
proof (cases "0 < r")
  case False
  then have r0: "r = 0" using assms by simp
  have "(- (q * R)) div R = - q"
    by (rule int_div_pos_eq[where r = 0]) (use assms r0 in simp_all)
  then show ?thesis using r0 by simp
next
  case True
  have "(- (q * R + r)) div R = - q - 1"
    by (rule int_div_pos_eq[where r = "R - r"]) (use assms True in \<open>simp_all add: algebra_simps\<close>)
  then show ?thesis using True by simp
qed

lemma target_rows_nonneg:
  "\<forall>h \<in> set segs. 0 < num_rows h \<Longrightarrow> 0 \<le> target_rows segs f s"
  unfolding target_rows_def by (rule sum_list_nonneg) force

lemma target_rows_pos:
  "g \<in> set segs \<Longrightarrow> \<forall>h \<in> set segs. 0 < num_rows h \<Longrightarrow>
     0 < target_rows segs (output_file g) (output_sheet g)"
proof (induction segs)
  case Nil
  then show ?case by simp
next
  case (Cons x xs)
  have nn: "0 \<le> target_rows xs (output_file g) (output_sheet g)"
    using Cons.prems(2) by (intro target_rows_nonneg) simp
  show ?case
  proof (cases "g = x")
    case True
    then show ?thesis using nn Cons.prems(2) by (simp add: target_rows_def)
  next
    case False
    then have "0 < target_rows xs (output_file g) (output_sheet g)"
      using Cons by simp
    then show ?thesis using Cons.prems(2) by (simp add: target_rows_def)
  qed
qed

lemma target_rows_absent:
  "(f, s) \<notin> seg_target ` set segs \<Longrightarrow> target_rows segs f s = 0"
  by (induction segs) (auto simp: target_rows_def seg_target_def)

lemma shape_targets:
  assumes sh: "plan_shape G R a b r st"
  shows "set (map seg_target (data_segments st)) =
           ({1..a} \<times> {1..G}) \<union> ({a + 1} \<times> {1..b}) \<union> (if 0 < r then {(a + 1, b + 1)} else {})"
    (is "?S = ?T")
proof -
  have bnd: "0 \<le> a" "0 \<le> b" "b < G" "0 \<le> r" "r < R"
    using sh by (simp_all add: plan_shape_def)
  have L: "\<And>f s. lookup_rows (files st) f s =
        (if 1 \<le> f \<and> 1 \<le> s \<and> s \<le> G \<and> (f \<le> a \<or> (f = a + 1 \<and> s \<le> b)) then Some R
         else if f = a + 1 \<and> s = b + 1 \<and> 0 < r then Some r else None)"
    using sh by (simp add: plan_shape_def)
  have T: "\<And>f s. target_rows (data_segments st) f s =
        (case lookup_rows (files st) f s of None \<Rightarrow> 0 | Some n \<Rightarrow> n)"
    using sh by (simp add: plan_shape_def)
  have P: "\<forall>g \<in> set (data_segments st). 0 < num_rows g"
    using sh by (simp add: plan_shape_def)
  have pos: "(0 < target_rows (data_segments st) f s) = ((f, s) \<in> ?T)" for f s
    using bnd by (auto simp: T L)
  have mem: "((f, s) \<in> ?S) = (0 < target_rows (data_segments st) f s)" for f s
  proof
    assume "(f, s) \<in> ?S"
    then obtain g where "g \<in> set (data_segments st)" "output_file g = f" "output_sheet g = s"
      by (auto simp: seg_target_def)
    then show "0 < target_rows (data_segments st) f s"
      using target_rows_pos[OF _ P] by blast
  next
    assume "0 < target_rows (data_segments st) f s"
    then show "(f, s) \<in> ?S"
      using target_rows_absent[of f s "data_segments st"] by auto
  qed
  show ?thesis
  proof (rule set_eqI)
    fix x :: "int \<times> int"
    obtain f s where x: "x = (f, s)" by (cases x)
    show "(x \<in> ?S) = (x \<in> ?T)" unfolding x mem pos ..
  qed
qed





lemma shape_ceil_sheets:
  assumes sh: "plan_shape G R a b r st"
  shows "- ((- sum_list (map num_rows (data_segments st))) div R) =
           a * G + b + (if 0 < r then 1 else 0)"
proof -
  have bnd: "0 \<le> r" "r < R" using sh by (simp_all add: plan_shape_def)
  have S: "sum_list (map num_rows (data_segments st)) = (a * G + b) * R + r"
    using sh by (simp add: plan_shape_def)
  show ?thesis unfolding S by (rule ceil_rows[OF bnd])
qed

lemma shape_ceil_files:
  assumes sh: "plan_shape G R a b r st"
  shows "- ((- (a * G + b + (if 0 < r then 1 else 0))) div G) =
           a + (if 0 < b \<or> 0 < r then 1 else 0)"
proof -
  have bnd: "0 \<le> a" "0 \<le> b" "b < G" "0 \<le> r" "r < R"
    using sh by (simp_all add: plan_shape_def)
  define e :: int where "e = (if 0 < r then 1 else 0)"
  have e: "0 \<le> e" "e \<le> 1" "(0 < e) = (0 < r)" by (simp_all add: e_def)
  show ?thesis
  proof (cases "b + e < G")
    case True
    have "- ((- (a * G + (b + e))) div G) = a + (if 0 < b + e then 1 else 0)"
      by (rule ceil_rows) (use bnd e True in simp_all)
    moreover have "(0 < b + e) = (0 < b \<or> 0 < r)" using bnd e by auto
    ultimately show ?thesis by (simp add: e_def add.assoc)
  next
    case False
    then have be: "b + e = G" using bnd e by linarith
    have "- ((- ((a + 1) * G + 0)) div G) = (a + 1) + (if 0 < (0::int) then 1 else 0)"
      by (rule ceil_rows) (use bnd in simp_all)
    moreover have "a * G + b + e = (a + 1) * G + 0" using be by (simp add: algebra_simps)
    moreover have "0 < b \<or> 0 < r" using be bnd e by auto
    ultimately show ?thesis by (simp add: e_def)
  qed
qed

lemma sheets_chain_sum:
  "sheets_chain ia ms segs \<Longrightarrow>
     sum_list (map num_rows segs) = sum_list (map (data_rows_of ia) ms)"
  by (induction ms arbitrary: segs) (auto simp: chain_sum)


lemma read_segment_rows:
  assumes "map_of wb (input_sheet g) = Some df" "0 \<le> num_rows g"
  shows "read_segment wb g = take (nat (num_rows g)) (drop (nat (start_row g)) (rows df))"
  using assms by (simp add: read_segment_def read_sheet_data_def read_excel_def)

lemma chain_content:
  assumes "chain name p xs q" "map_of wb name = Some df" "0 \<le> p"
  shows "concat (map (read_segment wb) xs) = take (nat (q - p)) (drop (nat p) (rows df))"
  using assms
proof (induction xs arbitrary: p)
  case Nil
  then show ?case by simp
next
  case (Cons g gs)
  have g: "input_sheet g = name" "start_row g = p" "0 < num_rows g"
    and ch: "chain name (p + num_rows g) gs q"
    using Cons.prems(1) by auto
  have "0 \<le> sum_list (map num_rows gs)"
    by (rule sum_list_nonneg) (use chain_pos[OF ch] in force)
  then have le: "p + num_rows g \<le> q" using chain_sum[OF ch] by simp
  have r: "read_segment wb g = take (nat (num_rows g)) (drop (nat p) (rows df))"
    using read_segment_rows[of wb g df] g Cons.prems(2) by simp
  have ih: "concat (map (read_segment wb) gs) =
      take (nat (q - (p + num_rows g))) (drop (nat (p + num_rows g)) (rows df))"
    using Cons.IH[OF ch Cons.prems(2)] Cons.prems(3) g(3) by simp
  have n1: "nat (q - p) = nat (num_rows g) + nat (q - (p + num_rows g))"
    using le g(3) by linarith
  have n2: "nat (p + num_rows g) = nat (num_rows g) + nat p"
    using Cons.prems(3) g(3) by linarith
  show ?case
    by (simp add: r ih n1 n2 take_add)
qed

lemma sheets_chain_content:
  assumes "sheets_chain ia ms segs"
    and "\<forall>n \<in> set ms. \<exists>df. map_of wb n = Some df \<and> data_rows_of ia n = int (length (rows df))"
  shows "concat (map (read_segment wb) segs) = concat (map (sheet_rows wb) ms)"
  using assms
proof (induction ms arbitrary: segs)
  case Nil
  then show ?case by simp
next
  case (Cons m ms)
  then obtain xs ys where s: "segs = xs @ ys" "chain m 0 xs (data_rows_of ia m)"
      "sheets_chain ia ms ys"
    by auto
  from Cons.prems(2) obtain df where df: "map_of wb m = Some df"
      "data_rows_of ia m = int (length (rows df))"
    by auto
  have "concat (map (read_segment wb) xs) = rows df"
    using chain_content[OF s(2) df(1)] df(2) by simp
  moreover have "concat (map (read_segment wb) ys) = concat (map (sheet_rows wb) ms)"
    using Cons.IH[OF s(3)] Cons.prems(2) by simp
  moreover have "sheet_rows wb m = rows df" by (simp add: sheet_rows_def df(1))
  ultimately show ?case by (simp add: s(1))
qed

lemma planner_facts:
  assumes G: "1 \<le> G" and R: "1 \<le> R" and ok: "analysis_ok ia"
  shows "\<exists>st a b r. calculate_output_distribution ia G R =
             Some (Inr \<lparr>od_files = files st,
                        total_output_files = a + (if 0 < b \<or> 0 < r then 1 else 0),
                        total_output_sheets = a * G + b + (if 0 < r then 1 else 0),
                        od_data_segments = data_segments st\<rparr>) \<and>
           plan_shape G R a b r st \<and> sheets_chain ia (sheet_names ia) (data_segments st) \<and>
           sum_list (map num_rows (data_segments st)) = total_data_rows ia"
proof -
  from planner_result[OF G R ok] obtain st a b r where
    c: "calculate_output_distribution ia G R =
             Some (Inr \<lparr>od_files = files st,
                        total_output_files = - ((- (- ((- total_data_rows ia) div R))) div G),
                        total_output_sheets = - ((- total_data_rows ia) div R),
                        od_data_segments = data_segments st\<rparr>)"
    and sh: "plan_shape G R a b r st"
    and ch: "sheets_chain ia (sheet_names ia) (data_segments st)"
    by blast
  have tot: "sum_list (map num_rows (data_segments st)) = total_data_rows ia"
    using sheets_chain_sum[OF ch] ok by (simp add: analysis_ok_def)
  have s: "- ((- total_data_rows ia) div R) = a * G + b + (if 0 < r then 1 else 0)"
    using shape_ceil_sheets[OF sh] tot by simp
  have f: "- ((- (a * G + b + (if 0 < r then 1 else 0))) div G) =
      a + (if 0 < b \<or> 0 < r then 1 else 0)"
    by (rule shape_ceil_files[OF sh])
  have "calculate_output_distribution ia G R =
             Some (Inr \<lparr>od_files = files st,
                        total_output_files = a + (if 0 < b \<or> 0 < r then 1 else 0),
                        total_output_sheets = a * G + b + (if 0 < r then 1 else 0),
                        od_data_segments = data_segments st\<rparr>)"
    using c by (simp only: s f)
  then show ?thesis using sh ch tot by blast
qed



section \<open>Ranges of the staging store\<close>

lemma chunks_cover:
  "concat (map (\<lambda>k. take m (drop (k * m) xs)) [0..<n]) = take (n * m) xs"
proof (induction n)
  case 0
  then show ?case by simp
next
  case (Suc n)
  have "take (n * m) xs @ take m (drop (n * m) xs) = take (n * m + m) xs"
    by (simp add: take_add)
  then show ?case using Suc by (simp add: add.commute)
qed

lemma sheet_query_rows:
  assumes R: "1 \<le> R" and k: "int k * R < int (length db)"
  shows "rows (get_data_for_sheet db (int k * R + 1) (min R (int (length db) - int k * R))) =
     map (\<lambda>r. [serial r, qri r])
       (take (nat R) (drop (k * nat R) (sort_key order_key db)))"
proof -
  let ?S = "sort_key order_key db"
  have pos: "0 < min R (int (length db) - int k * R)" using R k by simp
  have ik: "int (k * nat R) = int k * R" using R by simp
  have off: "nat (int k * R) = k * nat R" using ik by (metis nat_int)
  have kn: "k * nat R < length db" using k ik by linarith
  have d: "int (length db - k * nat R) = int (length db) - int k * R"
    using kn ik by (simp add: of_nat_diff)
  have tk: "take (nat (min R (int (length db) - int k * R))) (drop (k * nat R) ?S) =
      take (nat R) (drop (k * nat R) ?S)"
  proof (cases "R \<le> int (length db) - int k * R")
    case True
    then show ?thesis by (simp add: min_def)
  next
    case False
    then have m: "min R (int (length db) - int k * R) = int (length db - k * nat R)"
      using d by (simp add: min_def)
    have "length (drop (k * nat R) ?S) = length db - k * nat R" by simp
    moreover have "length db - k * nat R \<le> nat R" using False d by linarith
    ultimately show ?thesis unfolding m by simp
  qed
  have "\<not> min R (int (length db) - int k * R) < 0" using pos by linarith
  then show ?thesis
    by (simp add: get_data_for_sheet_def select_ordered_def sql_limit_def off tk)
qed

lemma ceil_div_bounds:
  assumes R: "1 \<le> R" and n: "0 \<le> a" and c: "ceil_div a R = Inr t"
  shows "a \<le> t * R" and "\<And>k. k < t \<Longrightarrow> k * R < a" and "0 \<le> t"
proof -
  define d where "d = (- a) div R"
  define m where "m = (- a) mod R"
  have R0: "0 < R" using R by simp
  have t: "t = - d" using c R by (auto simp: ceil_div_def d_def split: if_splits)
  have dm: "- a = d * R + m" unfolding d_def m_def by simp
  have m: "0 \<le> m" "m < R" unfolding m_def using R0 by simp_all
  have tR: "t * R = - (d * R)" by (simp add: t)
  show "a \<le> t * R" using dm m tR by linarith
  show "k * R < a" if "k < t" for k
  proof -
    have "k \<le> - d - 1" using that t by simp
    then have "k * R \<le> (- d - 1) * R" using R0 by (simp add: mult_right_mono)
    moreover have "(- d - 1) * R = - (d * R) - R" by (simp add: algebra_simps)
    ultimately show ?thesis using dm m by linarith
  qed
  show "0 \<le> t"
  proof (rule ccontr)
    assume "\<not> 0 \<le> t"
    then have "1 \<le> d" using t by simp
    then have "1 * R \<le> d * R" using R0 by (intro mult_right_mono) simp_all
    then show False using dm m n R0 by linarith
  qed
qed

text \<open>
  The queries of \<open>process_sheet\<close> for the output sheets 1 to \<open>total_sheets\<close>, in
  order, return the whole table in key order.
\<close>

lemma staged_ranges_round_trip:
  assumes R: "1 \<le> R" and c: "ceil_div (count_data_rows db) R = Inr total_sheets"
  shows "concat (map (\<lambda>k. rows (get_data_for_sheet db (int k * R + 1)
                                (min R (count_data_rows db - int k * R))))
                     [0..<nat total_sheets]) =
         map (\<lambda>r. [serial r, qri r]) (sort_key order_key db)"
proof -
  let ?S = "sort_key order_key db"
  let ?n = "nat total_sheets"
  have len0: "0 \<le> count_data_rows db" by (simp add: count_data_rows_def)
  note b = ceil_div_bounds[OF R len0 c]
  have each: "rows (get_data_for_sheet db (int k * R + 1)
                 (min R (count_data_rows db - int k * R))) =
      map (\<lambda>r. [serial r, qri r]) (take (nat R) (drop (k * nat R) ?S))"
    if "k \<in> set [0..<?n]" for k
  proof -
    have "int k < total_sheets" using that by simp
    then have "int k * R < int (length db)" using b(2) by (simp add: count_data_rows_def)
    then show ?thesis unfolding count_data_rows_def by (rule sheet_query_rows[OF R])
  qed
  have "concat (map (\<lambda>k. rows (get_data_for_sheet db (int k * R + 1)
                                (min R (count_data_rows db - int k * R)))) [0..<?n]) =
      concat (map (\<lambda>k. map (\<lambda>r. [serial r, qri r]) (take (nat R) (drop (k * nat R) ?S)))
                  [0..<?n])"
    using each by (intro arg_cong[where f = concat] map_cong refl)
  also have "\<dots> = map (\<lambda>r. [serial r, qri r])
      (concat (map (\<lambda>k. take (nat R) (drop (k * nat R) ?S)) [0..<?n]))"
    by (simp add: map_concat comp_def)
  also have "\<dots> = map (\<lambda>r. [serial r, qri r]) (take (?n * nat R) ?S)"
    by (simp add: chunks_cover)
  also have "\<dots> = map (\<lambda>r. [serial r, qri r]) ?S"
  proof -
    have "int (length db) \<le> total_sheets * R" using b(1) by (simp add: count_data_rows_def)
    moreover have "int (?n * nat R) = total_sheets * R" using b(3) R by simp
    ultimately have "length ?S \<le> ?n * nat R" by (metis length_sort of_nat_le_iff)
    then show ?thesis by simp
  qed
  finally show ?thesis .
qed

lemma example_analysis_ok: "analysis_ok example_analysis"
  by (simp add: analysis_ok_def example_analysis_def data_rows_of_def)

lemma example_workbook_matches: "workbook_matches example_analysis example_workbook"
  by (simp add: workbook_matches_def example_analysis_def example_workbook_def data_rows_of_def)

section \<open>The plan and the reader\<close>

text \<open>
  What the plan alone guarantees. For an analysis of distinct sheets with non-negative
  row counts that are those of the workbook, and limits of at least 1, the segments of
  the plan are for each input sheet in listing order a chain of contiguous ranges from
  row 0 to the sheet's row count, their destinations are non-decreasing in (file,
  sheet) order, and what \<open>read_sheet_data\<close> reads for them, in plan order, is the list of
  the input records in (sheet, row) order. This says nothing about what
  \<open>process_data_segment\<close> stores.
\<close>

lemma plan_reads_cover_input:
  assumes "1 \<le> G" "1 \<le> R" "analysis_ok ia" "workbook_matches ia wb"
  shows "\<exists>d. calculate_output_distribution ia G R = Some (Inr d) \<and>
     sheets_chain ia (sheet_names ia) (od_data_segments d) \<and>
     concat (map (read_segment wb) (od_data_segments d)) =
       concat (map (sheet_rows wb) (sheet_names ia)) \<and>
     sorted (map seg_target (od_data_segments d))"
proof -
  from planner_facts[OF assms(1-3)] obtain st a b r where
    c: "calculate_output_distribution ia G R =
             Some (Inr \<lparr>od_files = files st,
                        total_output_files = a + (if 0 < b \<or> 0 < r then 1 else 0),
                        total_output_sheets = a * G + b + (if 0 < r then 1 else 0),
                        od_data_segments = data_segments st\<rparr>)"
    and sh: "plan_shape G R a b r st"
    and ch: "sheets_chain ia (sheet_names ia) (data_segments st)"
    by blast
  have content: "concat (map (read_segment wb) (data_segments st)) =
      concat (map (sheet_rows wb) (sheet_names ia))"
    by (rule sheets_chain_content[OF ch]) (use assms(4) in \<open>simp add: workbook_matches_def\<close>)
  have srt: "sorted (map seg_target (data_segments st))"
    using sh by (simp add: plan_shape_def)
  show ?thesis using c ch content srt by simp
qed



section \<open>The input analyzer\<close>

lemma analyze_sheets_info:
  "fst (analyze_sheets env names (info, t)) n =
     (if n \<in> set names then Some (count_rows_in_sheet env n) else info n)"
  by (induction names arbitrary: info t) (auto split: prod.splits)

lemma analyze_sheets_total:
  "snd (analyze_sheets env names (info, t)) =
     t + sum_list (map (\<lambda>n. snd (count_rows_in_sheet env n)) names)"
  by (induction names arbitrary: info t) (auto split: prod.splits)

lemma analyze_input_file_Inr:
  assumes "excel_sheet_names env = Inr names"
  shows "analyze_input_file env =
     Inr \<lparr>num_sheets = int (length names), sheet_names = names,
          sheets_info = fst (analyze_sheets env names (Map.empty, 0)),
          total_data_rows = snd (analyze_sheets env names (Map.empty, 0))\<rparr>"
  using assms by (simp add: analyze_input_file_def split: prod.splits)

lemma count_rows_both_fail:
  "openpyxl_max_row env n = Inl e1 \<Longrightarrow> pandas_chunk_rows env n = Inl e2 \<Longrightarrow>
     count_rows_in_sheet env n = (0, 0)"
  by (simp add: count_rows_in_sheet_def)

text \<open>
  Claim C9, as the code has it. Analysis fails, with the exception of the library call,
  when the sheet list of the source cannot be read. Otherwise it returns an analysis:
  a listed sheet that can no longer be counted (the openpyxl count and the pandas
  fallback both raise) is recorded with 0 total rows and 0 data rows, and no error is
  raised for it.
\<close>

theorem analyze_input_file_failures:
  "(excel_sheet_names env = Inl e \<longrightarrow> analyze_input_file env = Inl e) \<and>
   (excel_sheet_names env = Inr names \<longrightarrow>
      (\<exists>ia. analyze_input_file env = Inr ia \<and> sheet_names ia = names \<and>
         (\<forall>n \<in> set names.
            (\<exists>e1. openpyxl_max_row env n = Inl e1) \<and> (\<exists>e2. pandas_chunk_rows env n = Inl e2)
            \<longrightarrow> sheets_info ia n = Some (0, 0))))"
proof (intro conjI impI)
  assume "excel_sheet_names env = Inl e"
  then show "analyze_input_file env = Inl e" by (simp add: analyze_input_file_def)
next
  assume n: "excel_sheet_names env = Inr names"
  have "\<forall>n \<in> set names.
            (\<exists>e1. openpyxl_max_row env n = Inl e1) \<and> (\<exists>e2. pandas_chunk_rows env n = Inl e2)
            \<longrightarrow> fst (analyze_sheets env names (Map.empty, 0)) n = Some (0, 0)"
    by (auto simp: analyze_sheets_info count_rows_both_fail)
  then show "\<exists>ia. analyze_input_file env = Inr ia \<and> sheet_names ia = names \<and>
         (\<forall>n \<in> set names.
            (\<exists>e1. openpyxl_max_row env n = Inl e1) \<and> (\<exists>e2. pandas_chunk_rows env n = Inl e2)
            \<longrightarrow> sheets_info ia n = Some (0, 0))"
    unfolding analyze_input_file_Inr[OF n] by simp
qed

theorem analyze_input_file_failures_witness:
  "excel_sheet_names unreadable_env = Inl OtherError \<and>
   analyze_input_file unreadable_env = Inl OtherError \<and>
   excel_sheet_names vanished_env = Inr [''A''] \<and>
   openpyxl_max_row vanished_env ''A'' = Inl KeyError \<and>
   pandas_chunk_rows vanished_env ''A'' = Inl ValueError \<and>
   (\<exists>ia. analyze_input_file vanished_env = Inr ia \<and> sheet_names ia = [''A''] \<and>
      sheets_info ia ''A'' = Some (0, 0))"
  using analyze_input_file_failures[of unreadable_env OtherError "[]"]
    analyze_input_file_failures[of vanished_env OtherError "[''A'']"]
  by (simp add: unreadable_env_def vanished_env_def)

theorem analyze_missing_group_counterexample:
  "analyze_input_file vanished_env =
     Inr \<lparr>num_sheets = 1, sheet_names = [''A''], sheets_info = [''A'' \<mapsto> (0, 0)],
          total_data_rows = 0\<rparr>"
  by (simp add: analyze_input_file_def vanished_env_def count_rows_in_sheet_def)

section \<open>The chunked reader\<close>

text \<open>
  Claim C8, as the code has it. \<^verbatim>\<open>read_sheet_data\<close> checks no range and never fails:
  for a sheet of the workbook, a start row and a row number that are not negative, it
  returns the rows from the start row on that the sheet has, at most the requested
  number, so a range that ends beyond the sheet is cut short (and empty when it starts
  beyond it); when the file cannot be opened or lacks the sheet the result is the empty
  frame.
\<close>

theorem read_sheet_data_truncates:
  "read_sheet_data None sheet_name start num = empty_frame \<and>
   (map_of wb sheet_name = None \<longrightarrow>
      read_sheet_data (Some wb) sheet_name start num = empty_frame) \<and>
   (map_of wb sheet_name = Some df \<and> 0 \<le> start \<and> 0 \<le> n \<longrightarrow>
      rows (read_sheet_data (Some wb) sheet_name start (Some n)) =
        take (nat n) (drop (nat start) (rows df)) \<and>
      int (length (rows (read_sheet_data (Some wb) sheet_name start (Some n)))) =
        max 0 (min n (int (length (rows df)) - start)))"
  by (auto simp: read_sheet_data_def read_excel_def empty_frame_def)

theorem read_sheet_data_truncates_witness:
  "map_of example_workbook ''C'' = None \<and>
   read_sheet_data (Some example_workbook) ''C'' 3 (Some 4) = empty_frame \<and>
   map_of example_workbook ''B'' =
     Some \<lparr>columns = [''serial'', ''qri''],
           rows = [[8, 80], [9, 90], [10, 100], [11, 110], [12, 120]]\<rparr> \<and>
   (0::int) \<le> 3 \<and> (0::int) \<le> 4 \<and>
   int (length (rows (read_sheet_data (Some example_workbook) ''B'' 3 (Some 4)))) = 2"
  using read_sheet_data_truncates[of "''C''" 3 "Some 4" example_workbook undefined 4]
    read_sheet_data_truncates[of "''B''" 3 "Some 4" example_workbook
      "\<lparr>columns = [''serial'', ''qri''],
        rows = [[8, 80], [9, 90], [10, 100], [11, 110], [12, 120]]\<rparr>" 4]
  unfolding example_workbook_def by auto

theorem read_beyond_counted_size_counterexample:
  "read_sheet_data (Some example_workbook) ''B'' 3 (Some 4) =
     \<lparr>columns = [''serial'', ''qri''], rows = [[11, 110], [12, 120]]\<rparr>"
  by (simp add: read_sheet_data_def read_excel_def example_workbook_def)

section \<open>The staging store\<close>





lemma to_db_rows_fields:
  assumes "\<forall>r \<in> set rs. 2 \<le> length r"
  shows "map (\<lambda>x. [serial x, qri x])
           (map (\<lambda>(i, r). \<lparr>source_sheet = idx, row_num = int i + 1, serial = r ! 0, qri = r ! 1\<rparr>)
                (enumerate k rs)) = map (take 2) rs"
  using assms
proof (induction rs arbitrary: k)
  case Nil
  then show ?case by simp
next
  case (Cons r rs)
  from Cons.prems obtain a b t where r: "r = a # b # t"
    by (cases r; cases "tl r") auto
  show ?case using Cons by (simp add: r)
qed

text \<open>
  Claim C10. In staging mode a sheet with two columns or more adds one table row for
  each of its records, holding the record's first two cells as \<open>serial\<close> and \<open>qri\<close>
  (the cells beyond are dropped); a sheet with fewer than two columns adds no row; and
  the query returns frames with exactly the columns \<open>serial\<close> and \<open>qri\<close>.
\<close>

theorem staging_keeps_two_fields:
  assumes "read_excel input_file sheet_name 0 None = Inr df"
    and "\<forall>r \<in> set (rows df). length r = length (columns df)"
  shows "(2 \<le> length (columns df) \<longrightarrow>
            snd (read_sheet_to_db input_file sheet_name idx db) = db @ to_db_rows idx df \<and>
            length (to_db_rows idx df) = length (rows df) \<and>
            map (\<lambda>x. [serial x, qri x]) (to_db_rows idx df) = map (take 2) (rows df)) \<and>
         (length (columns df) < 2 \<longrightarrow>
            snd (read_sheet_to_db input_file sheet_name idx db) = db) \<and>
         columns (get_data_for_sheet db' start row_count) = [''serial'', ''qri''] \<and>
         rows (get_data_for_sheet db' start row_count) =
           map (\<lambda>x. [serial x, qri x]) (select_ordered db' start row_count)"
proof (intro conjI impI)
  assume c: "2 \<le> length (columns df)"
  show "snd (read_sheet_to_db input_file sheet_name idx db) = db @ to_db_rows idx df"
    using assms(1) c by (simp add: read_sheet_to_db_def Let_def)
  show "length (to_db_rows idx df) = length (rows df)"
    by (simp add: to_db_rows_def)
  have "\<forall>r \<in> set (rows df). 2 \<le> length r" using assms(2) c by simp
  then show "map (\<lambda>x. [serial x, qri x]) (to_db_rows idx df) = map (take 2) (rows df)"
    unfolding to_db_rows_def by (rule to_db_rows_fields)
next
  assume "length (columns df) < 2"
  then show "snd (read_sheet_to_db input_file sheet_name idx db) = db"
    using assms(1) by (simp add: read_sheet_to_db_def Let_def)
qed (simp_all add: get_data_for_sheet_def)

theorem staging_keeps_two_fields_witness:
  "snd (read_sheet_to_db (Some wide_workbook) ''W'' 1 []) =
     [\<lparr>source_sheet = 1, row_num = 1, serial = 1, qri = 2\<rparr>,
      \<lparr>source_sheet = 1, row_num = 2, serial = 4, qri = 5\<rparr>] \<and>
   snd (read_sheet_to_db (Some wide_workbook) ''N'' 2 []) = [] \<and>
   columns (get_data_for_sheet
     (snd (read_sheet_to_db (Some wide_workbook) ''W'' 1 [])) 1 2) = [''serial'', ''qri'']"
proof -
  let ?W = "\<lparr>columns = [''serial'', ''qri'', ''note''], rows = [[1, 2, 3], [4, 5, 6::nat]]\<rparr>"
  let ?N = "\<lparr>columns = [''serial''], rows = [[7], [8::nat]]\<rparr>"
  have w: "read_excel (Some wide_workbook) ''W'' 0 None = Inr ?W"
    by (simp add: read_excel_def wide_workbook_def)
  have n: "read_excel (Some wide_workbook) ''N'' 0 None = Inr ?N"
    by (simp add: read_excel_def wide_workbook_def)
  have rw: "\<forall>r \<in> set (rows ?W). length r = length (columns ?W)" by simp
  have rn: "\<forall>r \<in> set (rows ?N). length r = length (columns ?N)" by simp
  have tw: "to_db_rows 1 ?W =
     [\<lparr>source_sheet = 1, row_num = 1, serial = 1, qri = 2\<rparr>,
      \<lparr>source_sheet = 1, row_num = 2, serial = 4, qri = 5\<rparr>]"
    by (simp add: to_db_rows_def enumerate_eq_zip upt_rec)
  note W = staging_keeps_two_fields[OF w rw, of 1 "[]"
        "snd (read_sheet_to_db (Some wide_workbook) ''W'' 1 [])" 1 2]
  have c: "columns (get_data_for_sheet
       (snd (read_sheet_to_db (Some wide_workbook) ''W'' 1 [])) 1 2) = [''serial'', ''qri'']"
    using W by blast
  have "2 \<le> length (columns ?W)" by simp
  with W have "snd (read_sheet_to_db (Some wide_workbook) ''W'' 1 []) = [] @ to_db_rows 1 ?W"
    by blast
  then have a: "snd (read_sheet_to_db (Some wide_workbook) ''W'' 1 []) = to_db_rows 1 ?W"
    by simp
  have b: "snd (read_sheet_to_db (Some wide_workbook) ''N'' 2 []) = []"
  proof -
    have "length (columns ?N) < 2" by simp
    with staging_keeps_two_fields[OF n rn, of 2 "[]" "[]" 1 2] show ?thesis by blast
  qed
  show ?thesis using a b c tw by (simp only:)
qed

section \<open>The output consolidator\<close>

lemma example_segment_read:
  "read_sheet_data (Some example_workbook) (input_sheet example_segment)
     (start_row example_segment) (Some (num_rows example_segment)) =
   \<lparr>columns = [''serial'', ''qri''], rows = [[5, 50], [6, 60], [7, 70]]\<rparr>"
  by (simp add: example_segment_def read_sheet_data_def read_excel_def example_workbook_def)

lemma example_read_A47:
  "read_sheet_data (Some example_workbook) ''A'' 4 (Some 3) =
   \<lparr>columns = [''serial'', ''qri''], rows = [[5, 50], [6, 60], [7, 70]]\<rparr>"
  by (simp add: read_sheet_data_def read_excel_def example_workbook_def)

lemma stored_rows_update:
  "stored_rows (store(f \<mapsto> AList.update s df wb)) f s = Some (rows df)"
  by (simp add: stored_rows_def update_conv')

text \<open>
  Claim C6, as the code has it. The consolidator is not idempotent: it appends. When the
  target sheet exists, the batch read for a segment that does not start at row 0 is not
  empty and the write succeeds, the sheet afterwards holds its former records followed
  by the batch, also when these records are the same batch written before. The target is
  left unchanged when the batch read is empty.
\<close>

theorem consolidator_appends_again:
  assumes "df = read_sheet_data input_file (input_sheet seg) (start_row seg) (Some (num_rows seg))"
    and "store (output_file seg) = Some wb" "map_of wb (output_sheet seg) = Some existing"
    and "\<not> probe_fails fl" "\<not> write_fails fl"
  shows "(\<not> df_empty df \<and> start_row seg \<noteq> 0 \<longrightarrow>
            process_data_segment fl input_file seg store =
              Inr (store(output_file seg \<mapsto>
                     AList.update (output_sheet seg) (concat_frames existing df) wb)) \<and>
            target_after (process_data_segment fl input_file seg store)
              (output_file seg) (output_sheet seg) = Some (rows existing @ rows df)) \<and>
         (df_empty df \<longrightarrow> process_data_segment fl input_file seg store = Inr store)"
  using assms
  by (auto simp: process_data_segment_def locked_write_def batch_rows_def Let_def
        target_after_def stored_rows_update concat_frames_def)

theorem consolidator_appends_again_witness:
  "target_after (process_data_segment no_faults (Some example_workbook) example_segment
      written_once) 1 2 =
     Some ([[5, 50], [6, 60], [7, 70]] @ [[5, 50], [6, 60], [7, 70]]) \<and>
   process_data_segment no_faults (Some example_workbook)
     (example_segment\<lparr>input_sheet := ''Z''\<rparr>) written_once = Inr written_once"
proof -
  let ?df = "\<lparr>columns = [''serial'', ''qri''], rows = [[5, 50], [6, 60], [7, 70::nat]]\<rparr>"
  let ?z = "example_segment\<lparr>input_sheet := ''Z''\<rparr>"
  have 1: "?df = read_sheet_data (Some example_workbook) (input_sheet example_segment)
     (start_row example_segment) (Some (num_rows example_segment))"
    by (simp add: example_segment_read)
  have 2: "written_once (output_file example_segment) = Some [(2, ?df)]"
    by (simp add: written_once_def example_segment_def)
  have 3: "map_of [(2, ?df)] (output_sheet example_segment) = Some ?df"
    by (simp add: example_segment_def)
  have 4: "\<not> probe_fails no_faults" "\<not> write_fails no_faults"
    by (simp_all add: no_faults_def)
  have 5: "\<not> df_empty ?df" "start_row example_segment \<noteq> 0"
    by (simp_all add: df_empty_def example_segment_def)
  have a: "target_after (process_data_segment no_faults (Some example_workbook)
      example_segment written_once) (output_file example_segment)
      (output_sheet example_segment) = Some (rows ?df @ rows ?df)"
    using consolidator_appends_again[of ?df "Some example_workbook" example_segment
        written_once "[(2, ?df)]" ?df no_faults] 1 2 3 4 5
    by blast
  have 6: "(empty_frame :: nat dataframe) = read_sheet_data (Some example_workbook)
     (input_sheet ?z) (start_row ?z) (Some (num_rows ?z))"
    by (simp add: example_segment_def read_sheet_data_def read_excel_def example_workbook_def)
  have 7: "written_once (output_file ?z) = Some [(2, ?df)]"
    by (simp add: written_once_def example_segment_def)
  have 8: "map_of [(2, ?df)] (output_sheet ?z) = Some ?df"
    by (simp add: example_segment_def)
  have 9: "df_empty (empty_frame :: nat dataframe)"
    by (simp add: df_empty_def empty_frame_def)
  have b: "process_data_segment no_faults (Some example_workbook) ?z written_once =
      Inr written_once"
    using consolidator_appends_again[of empty_frame "Some example_workbook" ?z
        written_once "[(2, ?df)]" ?df no_faults] 6 7 8 4 9
    by blast
  from a b show ?thesis by (simp add: example_segment_def)
qed

theorem reapplied_batch_counterexample:
  "stored_rows written_once 1 2 = Some [[5, 50], [6, 60], [7, 70]] \<and>
   target_after (process_data_segment no_faults (Some example_workbook) example_segment
      written_once) 1 2 =
     Some [[5, 50], [6, 60], [7, 70], [5, 50], [6, 60], [7, 70]]"
  by (simp add: process_data_segment_def example_read_A47 locked_write_def
        written_once_def no_faults_def df_empty_def batch_rows_def concat_frames_def
        target_after_def stored_rows_def Let_def example_segment_def)

lemma process_data_segment_returns:
  "\<exists>store'. process_data_segment fl input_file seg store = Inr store'"
  by (simp add: process_data_segment_def Let_def split: sum.splits)

lemma run_segments_append:
  "run_segments input_file (xs @ ys) store =
     run_segments input_file ys (run_segments input_file xs store)"
  by (induction xs arbitrary: store) (auto split: sum.splits)

lemma process_data_segment_both_fail:
  assumes "write_fails fl" "rewrite_fails fl"
  shows "process_data_segment fl input_file seg store = Inr store"
  using assms
  by (simp add: process_data_segment_def locked_write_def recover_file_def Let_def
        split: option.splits)

text \<open>
  Claim C7, as the code has it. When the locked write of a non-empty batch fails and the
  output file exists, the consolidator rebuilds the file from all of its sheets, the
  target sheet extended by the batch (or added), and writes it again. When this fails
  too, the error is logged and swallowed: \<^verbatim>\<open>process_data_segment\<close> returns normally,
  the output directory is as before, and nothing is raised to the coordinator. No call
  of \<^verbatim>\<open>process_data_segment\<close> ever raises, and the coordinator processes the remaining
  segments: the run with the failed segment ends as the run without it.
\<close>

theorem consolidator_failure_behaviour:
  "(\<exists>store'. process_data_segment fl input_file seg store = Inr store') \<and>
   (write_fails fl \<and> \<not> rewrite_fails fl \<and> store (output_file seg) = Some wb \<and>
    df = read_sheet_data input_file (input_sheet seg) (start_row seg) (Some (num_rows seg)) \<and>
    \<not> df_empty df \<longrightarrow>
      process_data_segment fl input_file seg store =
        Inr (store(output_file seg \<mapsto>
          AList.update (output_sheet seg)
            (case map_of wb (output_sheet seg) of
               Some existing \<Rightarrow> concat_frames existing (batch_rows (start_row seg = 0) df)
             | None \<Rightarrow> df) wb))) \<and>
   (write_fails fl \<and> rewrite_fails fl \<longrightarrow>
      process_data_segment fl input_file seg store = Inr store \<and>
      run_segments input_file (before @ (fl, seg) # rest) store =
        run_segments input_file (before @ rest) store)"
proof (intro conjI impI)
  show "\<exists>store'. process_data_segment fl input_file seg store = Inr store'"
    by (rule process_data_segment_returns)
next
  assume "write_fails fl \<and> \<not> rewrite_fails fl \<and> store (output_file seg) = Some wb \<and>
    df = read_sheet_data input_file (input_sheet seg) (start_row seg) (Some (num_rows seg)) \<and>
    \<not> df_empty df"
  then show "process_data_segment fl input_file seg store =
        Inr (store(output_file seg \<mapsto>
          AList.update (output_sheet seg)
            (case map_of wb (output_sheet seg) of
               Some existing \<Rightarrow> concat_frames existing (batch_rows (start_row seg = 0) df)
             | None \<Rightarrow> df) wb))"
    by (auto simp: process_data_segment_def locked_write_def recover_file_def Let_def
          split: option.splits)
next
  assume f: "write_fails fl \<and> rewrite_fails fl"
  then show "process_data_segment fl input_file seg store = Inr store"
    by (simp add: process_data_segment_both_fail)
  have "process_data_segment fl input_file seg (run_segments input_file before store) =
      Inr (run_segments input_file before store)"
    using f by (simp add: process_data_segment_both_fail)
  then show "run_segments input_file (before @ (fl, seg) # rest) store =
        run_segments input_file (before @ rest) store"
    by (simp add: run_segments_append)
qed

theorem consolidator_failure_behaviour_witness:
  "target_after (process_data_segment write_fault (Some example_workbook) example_segment
      written_once) 1 2 =
     Some [[5, 50], [6, 60], [7, 70], [5, 50], [6, 60], [7, 70]] \<and>
   process_data_segment both_fault (Some example_workbook) example_segment written_once =
     Inr written_once \<and>
   run_segments (Some example_workbook)
     ([(no_faults, example_segment)] @ (both_fault, example_segment) #
        [(no_faults, example_segment)]) written_once =
   run_segments (Some example_workbook)
     ([(no_faults, example_segment)] @ [(no_faults, example_segment)]) written_once"
proof -
  let ?df = "\<lparr>columns = [''serial'', ''qri''], rows = [[5, 50], [6, 60], [7, 70::nat]]\<rparr>"
  have 1: "write_fails write_fault \<and> \<not> rewrite_fails write_fault \<and>
      written_once (output_file example_segment) = Some [(2, ?df)] \<and>
      ?df = read_sheet_data (Some example_workbook) (input_sheet example_segment)
        (start_row example_segment) (Some (num_rows example_segment)) \<and> \<not> df_empty ?df"
    by (simp add: write_fault_def written_once_def example_segment_read df_empty_def)
       (simp add: example_segment_def)
  have a: "process_data_segment write_fault (Some example_workbook) example_segment
      written_once =
        Inr (written_once(output_file example_segment \<mapsto>
          AList.update (output_sheet example_segment)
            (case map_of [(2, ?df)] (output_sheet example_segment) of
               Some existing \<Rightarrow>
                 concat_frames existing (batch_rows (start_row example_segment = 0) ?df)
             | None \<Rightarrow> ?df) [(2, ?df)]))"
    using consolidator_failure_behaviour[of write_fault "Some example_workbook"
        example_segment written_once "[(2, ?df)]" ?df "[]" "[]"] 1
    by blast
  have 2: "write_fails both_fault \<and> rewrite_fails both_fault"
    by (simp add: both_fault_def)
  note b = consolidator_failure_behaviour[of both_fault "Some example_workbook"
        example_segment written_once "[]" ?df "[(no_faults, example_segment)]"
        "[(no_faults, example_segment)]"]
  have b1: "process_data_segment both_fault (Some example_workbook) example_segment
      written_once = Inr written_once"
    using b 2 by blast
  have b2: "run_segments (Some example_workbook)
     ([(no_faults, example_segment)] @ (both_fault, example_segment) #
        [(no_faults, example_segment)]) written_once =
   run_segments (Some example_workbook)
     ([(no_faults, example_segment)] @ [(no_faults, example_segment)]) written_once"
    using b 2 by blast
  have a': "target_after (process_data_segment write_fault (Some example_workbook)
      example_segment written_once) 1 2 =
     Some [[5, 50], [6, 60], [7, 70], [5, 50], [6, 60], [7, 70]]"
    unfolding a
    by (simp add: target_after_def stored_rows_def example_segment_def concat_frames_def
          batch_rows_def)
  from a' b1 b2 show ?thesis by (simp only: simp_thms)
qed

theorem swallowed_write_failure_counterexample:
  "process_data_segment both_fault (Some example_workbook) example_segment written_once =
     Inr written_once"
  by (simp add: process_data_segment_def locked_write_def recover_file_def both_fault_def
        written_once_def example_read_A47 df_empty_def Let_def example_segment_def)

text \<open>
  A segment that starts at row 0 of its input sheet and is appended to an existing sheet
  loses its first record: the source takes \<^verbatim>\<open>df.iloc[1:]\<close> of a frame whose header is
  not a row. Here B[0:1] is appended to the sheet that holds A[4:7], and nothing arrives.
\<close>

lemma append_from_row_zero_drops_record:
  "target_after (process_data_segment no_faults (Some example_workbook)
      \<lparr>input_sheet = ''B'', start_row = 0, num_rows = 1, output_file = 1, output_sheet = 2\<rparr>
      written_once) 1 2 = Some [[5, 50], [6, 60], [7, 70]]"
  by (simp add: process_data_segment_def read_sheet_data_def read_excel_def
        example_workbook_def locked_write_def written_once_def no_faults_def df_empty_def
        batch_rows_def concat_frames_def target_after_def stored_rows_def Let_def)

text \<open>
  A run whose analysis and plan succeed returns the planned number of files, whatever
  the writes of its segments do.
\<close>

lemma split_excel_file_distributed_returns:
  assumes "analyze_input_file env = Inr ia"
    and "calculate_output_distribution ia G R = Some (Inr d)" "od_data_segments d \<noteq> []"
  shows "\<exists>store'. split_excel_file_distributed env input_file fl G R store =
           Some (Inr (total_output_files d, store'))"
  using assms by (simp add: split_excel_file_distributed_def Let_def)

section \<open>Capacity of the consolidated output\<close>

lemma read_sheet_data_length:
  "0 \<le> n \<Longrightarrow> int (length (rows (read_sheet_data input_file name start (Some n)))) \<le> n"
  by (auto simp: read_sheet_data_def read_excel_def empty_frame_def
        split: option.splits sum.splits)

lemma batch_rows_length: "length (rows (batch_rows h df)) \<le> length (rows df)"
  by (simp add: batch_rows_def)

lemma map_of_snoc_fresh:
  "map_of wb s = None \<Longrightarrow> map_of (wb @ [(s, df)]) s' = (if s' = s then Some df else map_of wb s')"
  by (auto simp: map_add_def split: option.splits)

lemma distinct_snoc_fresh:
  "distinct (map fst wb) \<Longrightarrow> map_of wb s = None \<Longrightarrow> distinct (map fst (wb @ [(s, df)]))"
  by (auto simp: map_of_eq_None_iff)

lemma old_rows_nonneg:
  "0 \<le> (case stored_rows store f s of None \<Rightarrow> 0 | Some rs \<Rightarrow> int (length rs))"
  by (simp split: option.splits)

lemma sheet_added_single:
  assumes "int (length (rows df)) \<le> num_rows g"
  shows "sheet_added store g [(output_sheet g, df)]"
proof -
  have "int (length (rows df)) \<le>
      (case stored_rows store (output_file g) (output_sheet g) of
         None \<Rightarrow> 0 | Some rs \<Rightarrow> int (length rs)) + num_rows g"
    using assms old_rows_nonneg[of store "output_file g" "output_sheet g"] by linarith
  then show ?thesis unfolding sheet_added_def by simp
qed

lemma sheet_added_update:
  assumes st: "store (output_file g) = Some wb" and d: "distinct (map fst wb)"
    and len: "int (length (rows new)) \<le>
      (case map_of wb (output_sheet g) of None \<Rightarrow> 0 | Some ex \<Rightarrow> int (length (rows ex)))
        + num_rows g"
  shows "sheet_added store g (AList.update (output_sheet g) new wb)"
proof -
  have o: "(case stored_rows store (output_file g) (output_sheet g) of
         None \<Rightarrow> 0 | Some rs \<Rightarrow> int (length rs)) =
      (case map_of wb (output_sheet g) of None \<Rightarrow> 0 | Some ex \<Rightarrow> int (length (rows ex)))"
    by (simp add: stored_rows_def st split: option.splits)
  have 1: "distinct (map fst (AList.update (output_sheet g) new wb))"
    using d by (rule distinct_update)
  have 2: "map_of (AList.update (output_sheet g) new wb) (output_sheet g) = Some new"
    by (simp add: update_conv')
  have 3: "\<forall>s' df. s' \<noteq> output_sheet g \<longrightarrow>
      map_of (AList.update (output_sheet g) new wb) s' = Some df \<longrightarrow>
        (\<exists>wb. store (output_file g) = Some wb \<and> map_of wb s' = Some df)"
    by (simp add: update_conv' st)
  show ?thesis unfolding sheet_added_def o using 1 2 3 len by blast
qed

lemma update_fresh:
  "map_of wb s = None \<Longrightarrow> AList.update s df wb = wb @ [(s, df)]"
  by (induction wb) (auto split: if_splits)

lemma concat_batch_length:
  assumes "int (length (rows df)) \<le> num_rows g" "map_of wb (output_sheet g) = Some ex"
  shows "int (length (rows (concat_frames ex (batch_rows h df)))) \<le>
      (case map_of wb (output_sheet g) of None \<Rightarrow> 0 | Some ex \<Rightarrow> int (length (rows ex)))
        + num_rows g"
  using assms batch_rows_length[of h df] by (simp add: concat_frames_def)

lemma fresh_length:
  assumes "int (length (rows df)) \<le> num_rows g" "map_of wb (output_sheet g) = None"
  shows "int (length (rows df)) \<le>
      (case map_of wb (output_sheet g) of None \<Rightarrow> 0 | Some ex \<Rightarrow> int (length (rows ex)))
        + num_rows g"
  using assms by simp

lemma locked_write_effect:
  assumes len: "int (length (rows df)) \<le> num_rows g"
    and d: "\<And>wb. store (output_file g) = Some wb \<Longrightarrow> distinct (map fst wb)"
  shows "locked_write fl df h (output_file g) (output_sheet g) store = Inl OtherError \<or>
     (\<exists>wb'. locked_write fl df h (output_file g) (output_sheet g) store =
          Inr (store(output_file g \<mapsto> wb')) \<and> sheet_added store g wb')"
proof (cases "store (output_file g)")
  case None
  then show ?thesis
    using sheet_added_single[OF len, of store] by (simp add: locked_write_def) blast
next
  case (Some wb)
  note st = this
  show ?thesis
  proof (cases "write_fails fl")
    case True
    then show ?thesis by (simp add: locked_write_def st)
  next
    case wf: False
    show ?thesis
    proof (cases "probe_fails fl")
      case True
      then show ?thesis
        using sheet_added_single[OF len, of store] wf by (simp add: locked_write_def st) blast
    next
      case pf: False
      show ?thesis
      proof (cases "map_of wb (output_sheet g)")
        case None
        have "sheet_added store g (AList.update (output_sheet g) df wb)"
          using sheet_added_update[of store g wb df] st d[OF st] fresh_length[OF len None]
          by blast
        then have "sheet_added store g (wb @ [(output_sheet g, df)])"
          by (simp add: update_fresh[OF None])
        then show ?thesis using wf pf None by (simp add: locked_write_def st) blast
      next
        case (Some ex)
        have "sheet_added store g
            (AList.update (output_sheet g) (concat_frames ex (batch_rows h df)) wb)"
          using sheet_added_update[of store g wb "concat_frames ex (batch_rows h df)"]
            st d[OF st] concat_batch_length[OF len Some, of h]
          by blast
        then show ?thesis using wf pf Some by (simp add: locked_write_def st) blast
      qed
    qed
  qed
qed

lemma recover_file_effect:
  assumes len: "int (length (rows df)) \<le> num_rows g"
    and d: "\<And>wb. store (output_file g) = Some wb \<Longrightarrow> distinct (map fst wb)"
  shows "recover_file fl df h (output_file g) (output_sheet g) store = Inl OtherError \<or>
     (\<exists>wb'. recover_file fl df h (output_file g) (output_sheet g) store =
          Inr (store(output_file g \<mapsto> wb')) \<and> sheet_added store g wb')"
proof (cases "store (output_file g)")
  case None
  then show ?thesis by (simp add: recover_file_def)
next
  case (Some wb)
  note st = this
  show ?thesis
  proof (cases "rewrite_fails fl")
    case True
    then show ?thesis by (simp add: recover_file_def st)
  next
    case rf: False
    show ?thesis
    proof (cases "map_of wb (output_sheet g)")
      case None
      have "sheet_added store g (AList.update (output_sheet g) df wb)"
        using sheet_added_update[of store g wb df] st d[OF st] fresh_length[OF len None]
          by blast
      then show ?thesis using rf None by (simp add: recover_file_def st) blast
    next
      case (Some ex)
      have "sheet_added store g
          (AList.update (output_sheet g) (concat_frames ex (batch_rows h df)) wb)"
        using sheet_added_update[of store g wb "concat_frames ex (batch_rows h df)"]
            st d[OF st] concat_batch_length[OF len Some, of h]
          by blast
      then show ?thesis using rf Some by (simp add: recover_file_def st) blast
    qed
  qed
qed

lemma process_data_segment_effect:
  assumes n: "0 \<le> num_rows g"
    and d: "\<And>wb. store (output_file g) = Some wb \<Longrightarrow> distinct (map fst wb)"
  shows "process_data_segment fl input_file g store = Inr store \<or>
     (\<exists>wb'. process_data_segment fl input_file g store =
          Inr (store(output_file g \<mapsto> wb')) \<and> sheet_added store g wb')"
proof -
  define df where
    "df = read_sheet_data input_file (input_sheet g) (start_row g) (Some (num_rows g))"
  define h where "h = (start_row g = 0)"
  have len: "int (length (rows df)) \<le> num_rows g"
    unfolding df_def by (rule read_sheet_data_length[OF n])
  have p: "process_data_segment fl input_file g store =
     (if df_empty df then Inr store
      else case locked_write fl df h (output_file g) (output_sheet g) store of
             Inr store' \<Rightarrow> Inr store'
           | Inl e \<Rightarrow> (case recover_file fl df h (output_file g) (output_sheet g) store of
                         Inr store' \<Rightarrow> Inr store' | Inl inner_e \<Rightarrow> Inr store))"
    unfolding process_data_segment_def Let_def df_def h_def by (rule refl)
  show ?thesis
  proof (cases "df_empty df")
    case True
    then show ?thesis by (simp add: p)
  next
    case False
    from locked_write_effect[OF len d, where fl = fl and h = h] show ?thesis
    proof
      assume lw: "locked_write fl df h (output_file g) (output_sheet g) store = Inl OtherError"
      from recover_file_effect[OF len d, where fl = fl and h = h] show ?thesis
      proof
        assume "recover_file fl df h (output_file g) (output_sheet g) store = Inl OtherError"
        then show ?thesis using False lw by (simp add: p)
      next
        assume "\<exists>wb'. recover_file fl df h (output_file g) (output_sheet g) store =
          Inr (store(output_file g \<mapsto> wb')) \<and> sheet_added store g wb'"
        then obtain wb' where
          "recover_file fl df h (output_file g) (output_sheet g) store =
             Inr (store(output_file g \<mapsto> wb'))" "sheet_added store g wb'"
          by blast
        then show ?thesis using False lw by (simp add: p) blast
      qed
    next
      assume "\<exists>wb'. locked_write fl df h (output_file g) (output_sheet g) store =
          Inr (store(output_file g \<mapsto> wb')) \<and> sheet_added store g wb'"
      then obtain wb' where
        "locked_write fl df h (output_file g) (output_sheet g) store =
           Inr (store(output_file g \<mapsto> wb'))" "sheet_added store g wb'"
        by blast
      then show ?thesis using False by (simp add: p) blast
    qed
  qed
qed

lemma target_rows_nonneg0:
  "\<forall>h \<in> set segs. 0 \<le> num_rows h \<Longrightarrow> 0 \<le> target_rows segs f s"
  unfolding target_rows_def by (rule sum_list_nonneg) auto

lemma tracks_snoc:
  assumes t: "tracks prior store" and n: "0 \<le> num_rows g"
  shows "tracks (prior @ [g]) store"
proof -
  have m: "target_rows prior f s \<le> target_rows (prior @ [g]) f s" for f s
    using n by (simp add: target_rows_snoc)
  show ?thesis
    unfolding tracks_def
  proof (intro allI impI conjI)
    fix f wb assume st: "store f = Some wb"
    show "distinct (map fst wb)" using t st unfolding tracks_def by blast
    fix s df assume mo: "map_of wb s = Some df"
    have a: "(f, s) \<in> seg_target ` set prior" "int (length (rows df)) \<le> target_rows prior f s"
      using t st mo unfolding tracks_def by blast+
    show "(f, s) \<in> seg_target ` set (prior @ [g])" using a(1) by auto
    show "int (length (rows df)) \<le> target_rows (prior @ [g]) f s"
      using a(2) m[of f s] by linarith
  qed
qed

lemma tracks_update:
  assumes t: "tracks prior store" and n: "0 \<le> num_rows g"
    and nn: "\<forall>h \<in> set prior. 0 \<le> num_rows h"
    and sa: "sheet_added store g wb'"
  shows "tracks (prior @ [g]) (store(output_file g \<mapsto> wb'))"
  unfolding tracks_def
proof (intro allI impI)
  fix f wb assume st: "(store(output_file g \<mapsto> wb')) f = Some wb"
  show "distinct (map fst wb) \<and>
        (\<forall>s df. map_of wb s = Some df \<longrightarrow>
           (f, s) \<in> seg_target ` set (prior @ [g]) \<and>
           int (length (rows df)) \<le> target_rows (prior @ [g]) f s)"
  proof (cases "f = output_file g")
    case False
    then have "store f = Some wb" using st by simp
    then show ?thesis using tracks_snoc[OF t n] unfolding tracks_def by blast
  next
    case True
    then have wb: "wb = wb'" using st by simp
    have d: "distinct (map fst wb')" using sa by (simp add: sheet_added_def)
    obtain new where new: "map_of wb' (output_sheet g) = Some new"
        "int (length (rows new)) \<le>
          (case stored_rows store (output_file g) (output_sheet g) of
             None \<Rightarrow> 0 | Some rs \<Rightarrow> int (length rs)) + num_rows g"
      using sa unfolding sheet_added_def by blast
    have others: "\<And>s' df. s' \<noteq> output_sheet g \<Longrightarrow> map_of wb' s' = Some df \<Longrightarrow>
        (\<exists>wb0. store (output_file g) = Some wb0 \<and> map_of wb0 s' = Some df)"
      using sa unfolding sheet_added_def by blast
    have old: "(case stored_rows store (output_file g) (output_sheet g) of
             None \<Rightarrow> 0 | Some rs \<Rightarrow> int (length rs)) \<le>
          target_rows prior (output_file g) (output_sheet g)"
    proof (cases "stored_rows store (output_file g) (output_sheet g)")
      case None
      then show ?thesis using target_rows_nonneg0[OF nn] by simp
    next
      case (Some rs)
      then obtain wb0 ex where "store (output_file g) = Some wb0"
          "map_of wb0 (output_sheet g) = Some ex" "rs = rows ex"
        by (auto simp: stored_rows_def split: option.splits)
      then have "int (length rs) \<le> target_rows prior (output_file g) (output_sheet g)"
        using t unfolding tracks_def by blast
      then show ?thesis using Some by simp
    qed
    have tr: "target_rows (prior @ [g]) (output_file g) (output_sheet g) =
        target_rows prior (output_file g) (output_sheet g) + num_rows g"
      by (simp add: target_rows_snoc)
    have "(f, s) \<in> seg_target ` set (prior @ [g]) \<and>
           int (length (rows df)) \<le> target_rows (prior @ [g]) f s"
      if mo: "map_of wb s = Some df" for s df
    proof (cases "s = output_sheet g")
      case s: True
      then have "df = new" using mo new(1) wb by simp
      then have "int (length (rows df)) \<le> target_rows (prior @ [g]) f s"
        using new(2) old tr True s by simp
      moreover have "(f, s) \<in> seg_target ` set (prior @ [g])"
        using True s by (simp add: seg_target_def)
      ultimately show ?thesis by blast
    next
      case False
      from others[OF False] mo wb obtain wb0 where
        "store (output_file g) = Some wb0" "map_of wb0 s = Some df"
        by blast
      then show ?thesis using tracks_snoc[OF t n] True unfolding tracks_def by blast
    qed
    then show ?thesis using d wb by blast
  qed
qed

lemma tracks_step:
  assumes t: "tracks prior store" and n: "0 \<le> num_rows g"
    and nn: "\<forall>h \<in> set prior. 0 \<le> num_rows h"
  shows "\<exists>store'. process_data_segment fl input_file g store = Inr store' \<and>
           tracks (prior @ [g]) store'"
proof -
  have d: "\<And>wb. store (output_file g) = Some wb \<Longrightarrow> distinct (map fst wb)"
    using t unfolding tracks_def by blast
  from process_data_segment_effect[OF n d, where fl = fl and input_file = input_file] show ?thesis
  proof
    assume "process_data_segment fl input_file g store = Inr store"
    then show ?thesis using tracks_snoc[OF t n] by blast
  next
    assume "\<exists>wb'. process_data_segment fl input_file g store =
          Inr (store(output_file g \<mapsto> wb')) \<and> sheet_added store g wb'"
    then obtain wb' where p: "process_data_segment fl input_file g store =
          Inr (store(output_file g \<mapsto> wb'))" and sa: "sheet_added store g wb'"
      by blast
    show ?thesis using p tracks_update[OF t n nn sa] by blast
  qed
qed

lemma tracks_run:
  assumes "tracks prior store" "\<forall>h \<in> set prior. 0 \<le> num_rows h"
    and "\<forall>x \<in> set sched. 0 \<le> num_rows (snd x)"
  shows "tracks (prior @ map snd sched) (run_segments input_file sched store)"
  using assms
proof (induction sched arbitrary: prior store)
  case Nil
  then show ?case by simp
next
  case (Cons x sched)
  obtain fl g where x: "x = (fl, g)" by (cases x)
  have n: "0 \<le> num_rows g" using Cons.prems(3) x by simp
  from tracks_step[OF Cons.prems(1) n Cons.prems(2), where fl = fl and input_file = input_file] obtain store' where
    p: "process_data_segment fl input_file g store = Inr store'"
    and t: "tracks (prior @ [g]) store'"
    by blast
  have nn: "\<forall>h \<in> set (prior @ [g]). 0 \<le> num_rows h" using Cons.prems(2) n by simp
  have r: "\<forall>x \<in> set sched. 0 \<le> num_rows (snd x)" using Cons.prems(3) by simp
  from Cons.IH[OF t nn r] show ?case by (simp add: x p)
qed

lemma tracks_empty: "tracks [] Map.empty"
  by (simp add: tracks_def)

lemma target_rows_mset:
  "target_rows segs f s =
     sum_mset (image_mset num_rows
       (filter_mset (\<lambda>g. output_file g = f \<and> output_sheet g = s) (mset segs)))"
  by (simp add: target_rows_def sum_mset_sum_list[symmetric])

lemma target_rows_submset:
  assumes sub: "mset prior \<subseteq># mset segs" and nn: "\<forall>g \<in> set segs. 0 \<le> num_rows g"
  shows "target_rows prior f s \<le> target_rows segs f s"
proof -
  from sub obtain C where C: "mset segs = mset prior + C"
    by (auto simp: mset_subset_eq_exists_conv)
  obtain cs where cs: "mset cs = C" using ex_mset by blast
  have "set cs \<subseteq> set segs"
    using C cs by (metis mset_append set_append set_mset_mset sup_ge2 mset_eq_setD)
  then have "\<forall>h \<in> set cs. 0 \<le> num_rows h" using nn by blast
  then have "0 \<le> target_rows cs f s" by (rule target_rows_nonneg0)
  moreover have "target_rows segs f s = target_rows prior f s + target_rows cs f s"
    by (simp add: target_rows_mset C cs[symmetric])
  ultimately show ?thesis by linarith
qed

lemma tracks_within:
  assumes t: "tracks prior store" and sub: "mset prior \<subseteq># mset segs"
    and G: "1 \<le> G"
    and segs: "\<forall>g \<in> set segs. 0 \<le> num_rows g \<and> 1 \<le> output_sheet g \<and> output_sheet g \<le> G"
    and cap: "\<forall>f s. target_rows segs f s \<le> R"
  shows "store_within G R store"
  unfolding store_within_def
proof (intro allI impI)
  fix f wb assume st: "store f = Some wb"
  have d: "distinct (map fst wb)" using t st unfolding tracks_def by blast
  have nn: "\<forall>g \<in> set segs. 0 \<le> num_rows g" using segs by blast
  have ss: "set prior \<subseteq> set segs" using sub by (metis set_mset_mono set_mset_mset)
  have each: "1 \<le> s \<and> s \<le> G \<and> int (length (rows df)) \<le> R" if "(s, df) \<in> set wb" for s df
  proof -
    have mo: "map_of wb s = Some df" using that d by simp
    then have a: "(f, s) \<in> seg_target ` set prior"
        "int (length (rows df)) \<le> target_rows prior f s"
      using t st unfolding tracks_def by blast+
    from a(1) obtain g where "g \<in> set segs" "output_sheet g = s"
      using ss by (auto simp: seg_target_def)
    then have "1 \<le> s \<and> s \<le> G" using segs by blast
    moreover have "int (length (rows df)) \<le> R"
      using a(2) target_rows_submset[OF sub nn, of f s] cap by (meson order_trans)
    ultimately show ?thesis by blast
  qed
  have "set (map fst wb) \<subseteq> {1..G}" using each by auto
  then have "card (set (map fst wb)) \<le> card {1..G}" by (intro card_mono) simp_all
  moreover have "card (set (map fst wb)) = length wb"
    using distinct_card[OF d] by simp
  ultimately have "length wb \<le> nat G" by simp
  then have l: "int (length wb) \<le> G" using G by linarith
  show "distinct (map fst wb) \<and> int (length wb) \<le> G \<and>
        (\<forall>(s, df) \<in> set wb. int (length (rows df)) \<le> R)"
    using d l each by blast
qed

lemma shape_capacity:
  assumes sh: "plan_shape G R a b r st"
  shows "target_rows (data_segments st) f s \<le> R"
    and "lookup_rows (files st) f s = Some k \<Longrightarrow>
           0 < k \<and> k \<le> R \<and> 1 \<le> f \<and> 1 \<le> s \<and> s \<le> G \<and>
           k = target_rows (data_segments st) f s"
    and "g \<in> set (data_segments st) \<Longrightarrow>
           1 \<le> output_file g \<and> 1 \<le> output_sheet g \<and> output_sheet g \<le> G \<and> 0 < num_rows g"
proof -
  have bnd: "0 \<le> a" "0 \<le> b" "b < G" "0 \<le> r" "r < R"
    using sh by (simp_all add: plan_shape_def)
  have L: "\<And>f s. lookup_rows (files st) f s =
        (if 1 \<le> f \<and> 1 \<le> s \<and> s \<le> G \<and> (f \<le> a \<or> (f = a + 1 \<and> s \<le> b)) then Some R
         else if f = a + 1 \<and> s = b + 1 \<and> 0 < r then Some r else None)"
    using sh by (simp add: plan_shape_def)
  have T: "\<And>f s. target_rows (data_segments st) f s =
        (case lookup_rows (files st) f s of None \<Rightarrow> 0 | Some n \<Rightarrow> n)"
    using sh by (simp add: plan_shape_def)
  have P: "\<forall>g \<in> set (data_segments st). 0 < num_rows g"
    using sh by (simp add: plan_shape_def)
  show "target_rows (data_segments st) f s \<le> R"
    unfolding T L using bnd by simp
  show "lookup_rows (files st) f s = Some k \<Longrightarrow>
           0 < k \<and> k \<le> R \<and> 1 \<le> f \<and> 1 \<le> s \<and> s \<le> G \<and>
           k = target_rows (data_segments st) f s"
    unfolding T L using bnd by (auto split: if_splits)
  show "g \<in> set (data_segments st) \<Longrightarrow>
           1 \<le> output_file g \<and> 1 \<le> output_sheet g \<and> output_sheet g \<le> G \<and> 0 < num_rows g"
  proof -
    assume g: "g \<in> set (data_segments st)"
    then have "seg_target g \<in> set (map seg_target (data_segments st))" by simp
    then have "seg_target g \<in> ({1..a} \<times> {1..G}) \<union> ({a + 1} \<times> {1..b}) \<union>
        (if 0 < r then {(a + 1, b + 1)} else {})"
      unfolding shape_targets[OF sh] .
    then show ?thesis using bnd P g by (auto simp: seg_target_def split: if_splits)
  qed
qed

lemma get_data_for_sheet_length:
  "0 \<le> n \<Longrightarrow> int (length (rows (get_data_for_sheet db start n))) \<le> n"
  by (simp add: get_data_for_sheet_def select_ordered_def sql_limit_def)

lemma emitted_ok_single:
  assumes ok: "emitted_ok G R store" and s: "1 \<le> s" "s \<le> G"
    and len: "int (length (rows df)) \<le> R"
  shows "emitted_ok G R (store(f \<mapsto> [(s, df)]))"
  using assms unfolding emitted_ok_def by auto

lemma emitted_ok_replace:
  assumes ok: "emitted_ok G R store" and s: "1 \<le> s" "s \<le> G"
    and len: "int (length (rows df)) \<le> R" and st: "store f = Some book"
  shows "emitted_ok G R (store(f \<mapsto> AList.delete s book @ [(s, df)]))"
proof -
  have b: "distinct (map fst book)" "fst ` set book \<subseteq> {1..G}"
      "\<forall>(s, df) \<in> set book. int (length (rows df)) \<le> R"
    using ok st unfolding emitted_ok_def by blast+
  have 1: "distinct (map fst (AList.delete s book @ [(s, df)]))"
    using distinct_delete[OF b(1), of s] delete_notin_dom[of s book] by auto
  have sub: "set (AList.delete s book) \<subseteq> set book"
    by (auto simp: AList.delete_eq)
  have 2: "fst ` set (AList.delete s book @ [(s, df)]) \<subseteq> {1..G}"
    using sub b(2) s by auto
  have 3: "\<forall>(s, df) \<in> set (AList.delete s book @ [(s, df)]). int (length (rows df)) \<le> R"
    using sub b(3) len by auto
  show ?thesis
    unfolding emitted_ok_def
  proof (intro allI impI)
    fix f' wb assume a: "(store(f \<mapsto> AList.delete s book @ [(s, df)])) f' = Some wb"
    show "distinct (map fst wb) \<and> fst ` set wb \<subseteq> {1..G} \<and>
        (\<forall>(s, df) \<in> set wb. int (length (rows df)) \<le> R)"
    proof (cases "f' = f")
      case True
      then have "wb = AList.delete s book @ [(s, df)]" using a by simp
      then show ?thesis using 1 2 3 by blast
    next
      case False
      then have "store f' = Some wb" using a by simp
      then show ?thesis using ok unfolding emitted_ok_def by blast
    qed
  qed
qed

lemma write_excel_file_ok:
  assumes ok: "emitted_ok G R store" and s: "1 \<le> s" "s \<le> G"
    and len: "int (length (rows df)) \<le> R"
  shows "emitted_ok G R (write_excel_file f s df new store)"
proof (cases "store f")
  case None
  then show ?thesis
    using emitted_ok_single[OF ok s len] by (simp add: write_excel_file_def)
next
  case (Some book)
  then show ?thesis
    using emitted_ok_single[OF ok s len] emitted_ok_replace[OF ok s len Some]
    by (simp add: write_excel_file_def)
qed

lemma process_sheet_ok:
  assumes ok: "emitted_ok G R store" and s: "1 \<le> s" "s \<le> G"
  shows "emitted_ok G R (snd (process_sheet db G R total_rows f s store))"
proof -
  define start where "start = ((f - 1) * G + s - 1) * R + 1"
  define n where "n = min R (total_rows - (start - 1))"
  show ?thesis
  proof (cases "n \<le> 0")
    case True
    then show ?thesis using ok by (simp add: process_sheet_def Let_def start_def n_def)
  next
    case False
    then have "0 \<le> n" by simp
    then have "int (length (rows (get_data_for_sheet db start n))) \<le> n"
      by (rule get_data_for_sheet_length)
    then have len: "int (length (rows (get_data_for_sheet db start n))) \<le> R"
      by (simp add: n_def)
    show ?thesis
      using False ok write_excel_file_ok[OF ok s len]
      by (simp add: process_sheet_def Let_def start_def[symmetric] n_def[symmetric])
  qed
qed

lemma emit_sheets_ok:
  assumes "emitted_ok G R store" "\<forall>(f, s) \<in> set tasks. 1 \<le> s \<and> s \<le> G"
  shows "emitted_ok G R (emit_sheets db G R total_rows tasks store)"
  using assms
proof (induction tasks arbitrary: store)
  case Nil
  then show ?case by simp
next
  case (Cons t tasks)
  obtain f s where t: "t = (f, s)" by (cases t)
  have s: "1 \<le> s" "s \<le> G" using Cons.prems(2) t by auto
  have "emitted_ok G R (snd (process_sheet db G R total_rows f s store))"
    by (rule process_sheet_ok[OF Cons.prems(1) s])
  then show ?case using Cons.IH Cons.prems(2) by (simp add: t)
qed

lemma sheet_tasks_range:
  "(f, s) \<in> set (sheet_tasks G total_sheets total_files) \<Longrightarrow> 1 \<le> s \<and> s \<le> G"
  by (auto simp: sheet_tasks_def)

lemma emitted_ok_within:
  assumes "emitted_ok G R store" "0 \<le> G"
  shows "store_within G R store"
  unfolding store_within_def
proof (intro allI impI)
  fix f wb assume st: "store f = Some wb"
  have b: "distinct (map fst wb)" "fst ` set wb \<subseteq> {1..G}"
      "\<forall>(s, df) \<in> set wb. int (length (rows df)) \<le> R"
    using assms(1) st unfolding emitted_ok_def by blast+
  have "card (set (map fst wb)) \<le> card {1..G}"
    using b(2) by (intro card_mono) simp_all
  moreover have "card (set (map fst wb)) = length wb"
    using distinct_card[OF b(1)] by simp
  ultimately have "int (length wb) \<le> G" using assms(2) by simp
  then show "distinct (map fst wb) \<and> int (length wb) \<le> G \<and>
        (\<forall>(s, df) \<in> set wb. int (length (rows df)) \<le> R)"
    using b by blast
qed

lemma staged_emission_within:
  assumes "0 \<le> G"
  shows "store_within G R
           (emit_sheets db G R total_rows (take k (sheet_tasks G total_sheets total_files))
              Map.empty)"
proof -
  have "emitted_ok G R (Map.empty :: 'a store)" by (simp add: emitted_ok_def)
  moreover have "\<forall>(f, s) \<in> set (take k (sheet_tasks G total_sheets total_files)).
      1 \<le> s \<and> s \<le> G"
    using sheet_tasks_range by (auto dest: in_set_takeD)
  ultimately have "emitted_ok G R
      (emit_sheets db G R total_rows (take k (sheet_tasks G total_sheets total_files))
         Map.empty)"
    by (rule emit_sheets_ok)
  then show ?thesis using assms by (rule emitted_ok_within)
qed

lemma create_output_files_within:
  assumes "0 \<le> G" "create_output_files db G R Map.empty = Inr (n, store)"
  shows "store_within G R store"
proof -
  from assms(2) obtain total_sheets where
    "store = emit_sheets db G R (count_data_rows db)
       (sheet_tasks G total_sheets n) Map.empty"
    by (auto simp: create_output_files_def Let_def split: sum.splits)
  then show ?thesis
    using staged_emission_within[OF assms(1), of R db "count_data_rows db"
        "length (sheet_tasks G total_sheets n)" total_sheets n]
    by simp
qed

section \<open>Capacity invariants\<close>

text \<open>
  Claim C4. For a capacity policy with both limits at least 1 and an analysis of
  distinct sheets with non-negative row counts, the planner returns a plan in which the
  lengths of the segments assigned to any one output sheet add up to at most \<open>R\<close>,
  every count of the plan's dictionary is that sum, and every sheet number lies between
  1 and \<open>G\<close>. Starting from an empty output directory, after the consolidator has
  processed any of the plan's segments, each at most once, in any order and with any
  failures of its writes, every output file holds at most \<open>G\<close> sheets and every sheet
  at most \<open>R\<close> records. The same limits hold after every step of the staged emission
  into an empty directory.
\<close>

theorem capacity_invariants:
  assumes "1 \<le> G" "1 \<le> R" "analysis_ok ia"
  shows "\<exists>d. calculate_output_distribution ia G R = Some (Inr d) \<and>
     (\<forall>f s. target_rows (od_data_segments d) f s \<le> R) \<and>
     (\<forall>f s k. lookup_rows (od_files d) f s = Some k \<longrightarrow>
        k \<le> R \<and> 1 \<le> s \<and> s \<le> G \<and> k = target_rows (od_data_segments d) f s) \<and>
     (\<forall>g \<in> set (od_data_segments d). 1 \<le> output_sheet g \<and> output_sheet g \<le> G) \<and>
     (\<forall>sched input_file.
        mset (map snd sched) \<subseteq># mset (od_data_segments d) \<longrightarrow>
        store_within G R (run_segments input_file sched Map.empty)) \<and>
     (\<forall>db k total_rows total_sheets total_files.
        store_within G R
          (emit_sheets db G R total_rows (take k (sheet_tasks G total_sheets total_files))
             Map.empty))"
proof -
  from planner_facts[OF assms] obtain st a b r where
    c: "calculate_output_distribution ia G R =
             Some (Inr \<lparr>od_files = files st,
                        total_output_files = a + (if 0 < b \<or> 0 < r then 1 else 0),
                        total_output_sheets = a * G + b + (if 0 < r then 1 else 0),
                        od_data_segments = data_segments st\<rparr>)"
    and sh: "plan_shape G R a b r st"
    by blast
  have 1: "\<forall>f s. target_rows (data_segments st) f s \<le> R"
    using shape_capacity(1)[OF sh] by blast
  have 2: "\<forall>f s k. lookup_rows (files st) f s = Some k \<longrightarrow>
        k \<le> R \<and> 1 \<le> s \<and> s \<le> G \<and> k = target_rows (data_segments st) f s"
    using shape_capacity(2)[OF sh] by blast
  have 3: "\<forall>g \<in> set (data_segments st). 1 \<le> output_sheet g \<and> output_sheet g \<le> G"
    using shape_capacity(3)[OF sh] by blast
  have segs: "\<forall>g \<in> set (data_segments st).
      0 \<le> num_rows g \<and> 1 \<le> output_sheet g \<and> output_sheet g \<le> G"
    using shape_capacity(3)[OF sh] by force
  have 4: "store_within G R (run_segments input_file sched Map.empty)"
    if sub: "mset (map snd sched) \<subseteq># mset (data_segments st)"
    for sched :: "(faults \<times> segment) list" and input_file :: "(string, 'a) workbook option"
  proof -
    have "set (map snd sched) \<subseteq> set (data_segments st)"
      using sub by (metis set_mset_mono set_mset_mset)
    then have nn: "\<forall>x \<in> set sched. 0 \<le> num_rows (snd x)" using segs by auto
    have "tracks ([] @ map snd sched) (run_segments input_file sched Map.empty)"
      by (rule tracks_run[OF tracks_empty _ nn]) simp
    then have "tracks (map snd sched) (run_segments input_file sched Map.empty)" by simp
    then show ?thesis by (rule tracks_within[OF _ sub assms(1) segs 1])
  qed
  have G0: "0 \<le> G" using assms(1) by simp
  have 5: "\<forall>db k total_rows total_sheets total_files.
        store_within G R
          (emit_sheets db G R total_rows (take k (sheet_tasks G total_sheets total_files))
             Map.empty)"
    using staged_emission_within[OF G0] by blast
  show ?thesis using c 1 2 3 4 5 by simp
qed

theorem capacity_invariants_witness:
  "(1::int) \<le> 2 \<and> (1::int) \<le> 4 \<and> analysis_ok example_analysis \<and>
   target_rows
     [\<lparr>input_sheet = ''A'', start_row = 0, num_rows = 4, output_file = 1, output_sheet = 1\<rparr>,
      \<lparr>input_sheet = ''A'', start_row = 4, num_rows = 3, output_file = 1, output_sheet = 2\<rparr>,
      \<lparr>input_sheet = ''B'', start_row = 0, num_rows = 1, output_file = 1, output_sheet = 2\<rparr>,
      \<lparr>input_sheet = ''B'', start_row = 1, num_rows = 4, output_file = 2, output_sheet = 1\<rparr>]
     1 2 \<le> 4 \<and>
   store_within 2 4 (run_segments (Some example_workbook) example_schedule Map.empty)"
proof -
  let ?segs = "[\<lparr>input_sheet = ''A'', start_row = 0, num_rows = 4, output_file = 1, output_sheet = 1\<rparr>,
      \<lparr>input_sheet = ''A'', start_row = 4, num_rows = 3, output_file = 1, output_sheet = 2\<rparr>,
      \<lparr>input_sheet = ''B'', start_row = 0, num_rows = 1, output_file = 1, output_sheet = 2\<rparr>,
      \<lparr>input_sheet = ''B'', start_row = 1, num_rows = 4, output_file = 2, output_sheet = 1\<rparr>]"
  have h: "(1::int) \<le> 2" "(1::int) \<le> 4" by simp_all
  from capacity_invariants[OF h example_analysis_ok] obtain d where
    d: "calculate_output_distribution example_analysis 2 4 = Some (Inr d)"
    and t: "\<forall>f s. target_rows (od_data_segments d) f s \<le> 4"
    and r: "\<forall>sched input_file.
        mset (map snd sched) \<subseteq># mset (od_data_segments d) \<longrightarrow>
        store_within 2 4 (run_segments (input_file :: (string, nat) workbook option) sched
          Map.empty)"
    by blast
  have segs: "od_data_segments d = ?segs" using d by (auto simp: example_plan)
  have sub: "mset (map snd example_schedule) \<subseteq># mset ?segs"
    by (simp add: example_schedule_def example_segment_def)
  have "store_within 2 4 (run_segments (Some example_workbook) example_schedule Map.empty)"
    using r sub unfolding segs by blast
  moreover have "target_rows ?segs 1 2 \<le> 4" using t unfolding segs by blast
  ultimately show ?thesis using h example_analysis_ok by blast
qed

section \<open>The written output of the worked example\<close>

lemma example_plan_run_segments:
  "calculate_output_distribution example_analysis 2 4 = Some (Inr d) \<Longrightarrow>
     map snd (example_plan_run fl) = od_data_segments d"
  by (auto simp: example_plan example_plan_run_def)

lemma example_reads:
  "read_sheet_data (Some example_workbook) ''A'' 0 (Some 4) =
     \<lparr>columns = [''serial'', ''qri''], rows = [[1, 10], [2, 20], [3, 30], [4, 40]]\<rparr>"
  "read_sheet_data (Some example_workbook) ''B'' 0 (Some 1) =
     \<lparr>columns = [''serial'', ''qri''], rows = [[8, 80]]\<rparr>"
  "read_sheet_data (Some example_workbook) ''B'' 1 (Some 4) =
     \<lparr>columns = [''serial'', ''qri''],
      rows = [[9, 90], [10, 100], [11, 110], [12, 120]]\<rparr>"
  by (simp_all add: read_sheet_data_def read_excel_def example_workbook_def)

text \<open>
  Claim C1 does not hold of the output that is written. The plan of the worked example
  assigns A[4:7] and then B[0:1] to sheet 2 of file 1, but the run of its four segments
  in plan order, into an empty directory and with every write succeeding, stores A[4:7]
  alone there: the record B[0] = [8, 80] reaches no output sheet, because the append of
  a segment that starts at row 0 drops its first record. When the third segment takes
  the file lock before the second, the sheet holds B[0] before A[4:7]. And when the
  write into a file that does not exist yet raises, as the call with mode \<^verbatim>\<open>'w'\<close> and
  \<^verbatim>\<open>if_sheet_exists\<close> does, the recovery finds no file and the run stores nothing.
\<close>

theorem written_output_loses_record:
  "stored_rows (run_segments (Some example_workbook) (example_plan_run no_faults) Map.empty)
     1 1 = Some [[1, 10], [2, 20], [3, 30], [4, 40]] \<and>
   stored_rows (run_segments (Some example_workbook) (example_plan_run no_faults) Map.empty)
     1 2 = Some [[5, 50], [6, 60], [7, 70]] \<and>
   stored_rows (run_segments (Some example_workbook) (example_plan_run no_faults) Map.empty)
     2 1 = Some [[9, 90], [10, 100], [11, 110], [12, 120]] \<and>
   stored_rows (run_segments (Some example_workbook) example_plan_run_swapped Map.empty)
     1 2 = Some [[8, 80], [5, 50], [6, 60], [7, 70]] \<and>
   run_segments (Some example_workbook) (example_plan_run write_fault) Map.empty = Map.empty"
  by (simp add: example_plan_run_def example_plan_run_swapped_def process_data_segment_def
        example_reads example_read_A47 locked_write_def recover_file_def no_faults_def
        write_fault_def df_empty_def batch_rows_def concat_frames_def stored_rows_def
        Let_def)

end
